theory Spec2Isabelle
  imports Complex_Main "HOL-Library.Multiset"
begin

section \<open>Geometry of interactive elements (browser/utils.ts)\<close>

text \<open>
  The repository holds two TypeScript implementations of the same agent: the one under
  \<^verbatim>\<open>IndexTs/\<close> and the one under \<^verbatim>\<open>tsvariant/\<close> (whose \<^verbatim>\<open>browser/utils.ts\<close>,
  \<^verbatim>\<open>controller/controller.ts\<close> and \<^verbatim>\<open>llm/llm.ts\<close> are among the unnamed parts).
  Both are embedded; a definition of the second implementation whose name clashes with
  one of the first carries the suffix \<^verbatim>\<open>_v\<close>.

  JavaScript numbers are modelled by the reals: rounding, overflow and NaN of IEEE
  doubles are outside the model.
\<close>

subsection \<open>Data (browser/models.ts)\<close>

record Rect =
  left :: real
  top :: real
  right :: real
  bottom :: real
  width :: real
  height :: real

record Coordinates =
  x :: real
  y :: real
  width :: "real option"
  height :: "real option"

record InteractiveElement =
  index :: int
  browser_agent_id :: string
  tag_name :: string
  text' :: string
  attributes :: "(string \<times> string) list"
  viewport :: Coordinates
  page :: Coordinates
  center :: Coordinates
  weight :: real
  input_type :: "string option"
  rect :: Rect
  z_index :: int

text \<open>The invariant that the specification states for a rectangle.\<close>

definition rect_inv :: "Rect \<Rightarrow> bool" where
  "rect_inv r \<longleftrightarrow>
     Rect.left r \<le> Rect.right r \<and> Rect.top r \<le> Rect.bottom r \<and>
     Rect.width r = Rect.right r - Rect.left r \<and> Rect.height r = Rect.bottom r - Rect.top r"

subsection \<open>calculateIou and isFullyContained (IndexTs)\<close>

definition calculateIou :: "Rect \<Rightarrow> Rect \<Rightarrow> real" where
  "calculateIou rect1 rect2 =
     (let intersectLeft = max (Rect.left rect1) (Rect.left rect2);
          intersectTop = max (Rect.top rect1) (Rect.top rect2);
          intersectRight = min (Rect.right rect1) (Rect.right rect2);
          intersectBottom = min (Rect.bottom rect1) (Rect.bottom rect2)
      in if intersectRight < intersectLeft \<or> intersectBottom < intersectTop then 0
         else
           (let intersectArea = (intersectRight - intersectLeft) * (intersectBottom - intersectTop);
                area1 = Rect.width rect1 * Rect.height rect1;
                area2 = Rect.width rect2 * Rect.height rect2;
                unionArea = area1 + area2 - intersectArea
            in if unionArea > 0 then intersectArea / unionArea else 0))"

definition isFullyContained :: "Rect \<Rightarrow> Rect \<Rightarrow> bool" where
  "isFullyContained rect1 rect2 \<longleftrightarrow>
     Rect.left rect1 \<ge> Rect.left rect2 \<and> Rect.right rect1 \<le> Rect.right rect2 \<and>
     Rect.top rect1 \<ge> Rect.top rect2 \<and> Rect.bottom rect1 \<le> Rect.bottom rect2"

subsection \<open>calculateIOU and isFullyContained (tsvariant)\<close>

text \<open>
  The second implementation passes the four edges only and computes both areas from
  them; its callers build the edges from \<^verbatim>\<open>x\<close>, \<^verbatim>\<open>y\<close>, \<^verbatim>\<open>width\<close>, \<^verbatim>\<open>height\<close>.
\<close>

record Edges =
  left :: real
  top :: real
  right :: real
  bottom :: real

definition calculateIOU :: "Edges \<Rightarrow> Edges \<Rightarrow> real" where
  "calculateIOU rect1 rect2 =
     (let intersectLeft = max (Edges.left rect1) (Edges.left rect2);
          intersectTop = max (Edges.top rect1) (Edges.top rect2);
          intersectRight = min (Edges.right rect1) (Edges.right rect2);
          intersectBottom = min (Edges.bottom rect1) (Edges.bottom rect2)
      in if intersectRight < intersectLeft \<or> intersectBottom < intersectTop then 0
         else
           (let area1 = (Edges.right rect1 - Edges.left rect1) * (Edges.bottom rect1 - Edges.top rect1);
                area2 = (Edges.right rect2 - Edges.left rect2) * (Edges.bottom rect2 - Edges.top rect2);
                intersectionArea = (intersectRight - intersectLeft) * (intersectBottom - intersectTop);
                unionArea = area1 + area2 - intersectionArea
            in if unionArea > 0 then intersectionArea / unionArea else 0))"

definition isFullyContained_v :: "Edges \<Rightarrow> Edges \<Rightarrow> bool" where
  "isFullyContained_v rect1 rect2 \<longleftrightarrow>
     Edges.left rect1 \<ge> Edges.left rect2 \<and> Edges.right rect1 \<le> Edges.right rect2 \<and>
     Edges.top rect1 \<ge> Edges.top rect2 \<and> Edges.bottom rect1 \<le> Edges.bottom rect2"

definition edges_of :: "Rect \<Rightarrow> Edges" where
  "edges_of r = \<lparr>Edges.left = Rect.left r, Edges.top = Rect.top r, Edges.right = Rect.right r, Edges.bottom = Rect.bottom r\<rparr>"

text \<open>The union area, as both functions compute it once the rectangles intersect.\<close>

definition unionArea :: "Rect \<Rightarrow> Rect \<Rightarrow> real" where
  "unionArea rect1 rect2 =
     Rect.width rect1 * Rect.height rect1 + Rect.width rect2 * Rect.height rect2
       - (min (Rect.right rect1) (Rect.right rect2) - max (Rect.left rect1) (Rect.left rect2))
         * (min (Rect.bottom rect1) (Rect.bottom rect2) - max (Rect.top rect1) (Rect.top rect2))"

definition disjoint_rects :: "Rect \<Rightarrow> Rect \<Rightarrow> bool" where
  "disjoint_rects rect1 rect2 \<longleftrightarrow>
     min (Rect.right rect1) (Rect.right rect2) < max (Rect.left rect1) (Rect.left rect2) \<or>
     min (Rect.bottom rect1) (Rect.bottom rect2) < max (Rect.top rect1) (Rect.top rect2)"

section \<open>Conversation history (agent/message_manager.ts, llm/llm.ts)\<close>

subsection \<open>Messages of the second implementation (tsvariant)\<close>

text \<open>
  \<^verbatim>\<open>cacheControl?: boolean\<close> is an optional property of every content block. The manager
  tests \<^verbatim>\<open>"cacheControl" in content\<close> (the property is present, whatever its value) and
  \<^verbatim>\<open>content.cacheControl === true\<close>, so three cases are kept apart: the property is
  absent, present with the value \<^verbatim>\<open>undefined\<close>, or present with a boolean.
\<close>

datatype CacheControl = Absent | Undefined | Flag bool

datatype ContentType =
    TextContent (text' : string) (cacheControl : CacheControl)
  | ImageContent (imageB64 : "string option") (imageUrl : "string option")
      (cacheControl : CacheControl)
  | ThinkingBlock (thinking : string) (signature : string) (cacheControl : CacheControl)

record Message =
  role :: string
  content :: "ContentType list"
  name :: "string option"
  toolCallId :: "string option"
  isStateMessage :: "bool option"

text \<open>\<^verbatim>\<open>hasCacheControl\<close> and \<^verbatim>\<open>removeCacheControl\<close>, the private helpers of the manager.\<close>

definition hasCacheControl :: "Message \<Rightarrow> bool" where
  "hasCacheControl message =
     list_ex (\<lambda>c. is_TextContent c \<and> cacheControl c \<noteq> Absent \<and> cacheControl c = Flag True)
       (Message.content message)"

fun clearFlag :: "ContentType \<Rightarrow> ContentType" where
  "clearFlag (TextContent t cc) = (if cc \<noteq> Absent then TextContent t (Flag False) else TextContent t cc)"
| "clearFlag c = c"

definition removeCacheControl :: "Message \<Rightarrow> Message" where
  "removeCacheControl message = message\<lparr>Message.content := map clearFlag (Message.content message)\<rparr>"

text \<open>
  \<^verbatim>\<open>removeLastMessage\<close>: the history is the private array \<^verbatim>\<open>_messages\<close>; the function
  returns the array after the call.
\<close>

definition removeLastMessage :: "Message list \<Rightarrow> Message list" where
  "removeLastMessage messages = (if length messages > 1 then butlast messages else messages)"

text \<open>
  \<^verbatim>\<open>getMessages\<close> walks the array from the last index down to 0 with the flag
  \<^verbatim>\<open>foundFirstCacheControl\<close>, and edits the messages in place. \<open>sweepCache\<close> is that
  loop: the recursive call on the tail is the part of the loop that has already run when
  message \<open>msg\<close> is visited, and the first component is the flag at that moment.
  The array returned is the stored array, so the result is also the new history.
\<close>

fun sweepCache :: "Message list \<Rightarrow> bool \<times> Message list" where
  "sweepCache [] = (False, [])"
| "sweepCache (msg # later) =
     (let (foundFirstCacheControl, later') = sweepCache later
      in if Message.role msg = ''system'' then (foundFirstCacheControl, msg # later')
         else
           (let msg' = (if foundFirstCacheControl then removeCacheControl msg else msg)
            in (if hasCacheControl msg' then True else foundFirstCacheControl, msg' # later')))"

definition getMessages :: "Message list \<Rightarrow> Message list" where
  "getMessages messages = snd (sweepCache messages)"

text \<open>The blocks a scan of the non-system messages finds with the marker set.\<close>

definition markedBlocks :: "Message list \<Rightarrow> ContentType list" where
  "markedBlocks messages =
     concat (map (\<lambda>m. filter (\<lambda>c. cacheControl c = Flag True) (Message.content m))
       (filter (\<lambda>m. Message.role m \<noteq> ''system'') messages))"

definition markedMessages :: "Message list \<Rightarrow> Message list" where
  "markedMessages messages = filter (\<lambda>m. Message.role m \<noteq> ''system'' \<and> hasCacheControl m) messages"

definition textMsg :: "string \<Rightarrow> (string \<times> CacheControl) list \<Rightarrow> Message" where
  "textMsg r blocks =
     \<lparr>Message.role = r, Message.content = map (\<lambda>(t, cc). TextContent t cc) blocks,
      Message.name = None, toolCallId = None, isStateMessage = None\<rparr>"

subsection \<open>getMessages of the first implementation (IndexTs)\<close>

text \<open>
  The first implementation stores the marker as \<^verbatim>\<open>cache_control\<close> and flags a state
  message with \<^verbatim>\<open>is_state_message\<close>; the same message type serves for both (a content
  that is a plain string, which the type of the first implementation also allows, is
  skipped by the loop like any message that is not a state message).
  \<^verbatim>\<open>getMessages\<close> copies the array, not the messages: the assignment to
  \<^verbatim>\<open>msg.content\<close> changes the stored messages as well. The loop runs from the last
  index down; the first component of \<open>sweepState\<close> is
  \<^verbatim>\<open>lastStateMessageIndex !== -1\<close> when \<open>msg\<close> is visited.
\<close>

fun setUndefined :: "ContentType \<Rightarrow> ContentType" where
  "setUndefined (TextContent t cc) = TextContent t Undefined"
| "setUndefined (ImageContent b u cc) = ImageContent b u Undefined"
| "setUndefined (ThinkingBlock t s cc) = ThinkingBlock t s Undefined"

definition stateMessage :: "Message \<Rightarrow> bool" where
  "stateMessage msg \<longleftrightarrow> isStateMessage msg = Some True \<and> length (Message.content msg) > 0"

fun sweepState :: "Message list \<Rightarrow> bool \<times> Message list" where
  "sweepState [] = (False, [])"
| "sweepState (msg # later) =
     (let (seen, later') = sweepState later
      in if stateMessage msg then
           (if \<not> seen then (True, msg # later')
            else (seen, msg\<lparr>Message.content := map setUndefined (Message.content msg)\<rparr> # later'))
         else (seen, msg # later'))"

definition getMessages_ix :: "Message list \<Rightarrow> Message list" where
  "getMessages_ix messages = snd (sweepState messages)"

text \<open>
  Message \<open>i\<close> of a history is followed by a non-system message with a marked text block
  (\<open>laterMarked\<close>), or by a non-empty state message (\<open>laterState\<close>).
\<close>

definition laterMarked :: "Message list \<Rightarrow> nat \<Rightarrow> bool" where
  "laterMarked ms i \<longleftrightarrow>
     (\<exists>j. i < j \<and> j < length ms \<and> Message.role (ms ! j) \<noteq> ''system'' \<and> hasCacheControl (ms ! j))"

definition laterState :: "Message list \<Rightarrow> nat \<Rightarrow> bool" where
  "laterState ms i \<longleftrightarrow> (\<exists>j. i < j \<and> j < length ms \<and> stateMessage (ms ! j))"

subsection \<open>Histories the managers build\<close>

text \<open>
  \<^verbatim>\<open>addSystemMessageAndUserPrompt\<close> starts a conversation. The text of the system message
  (\<^verbatim>\<open>systemMessage(this.actionDescriptions)\<close>), the loader of the demo images and, in the
  second implementation, the formatted date are arguments.
\<close>

definition addSystemMessageAndUserPrompt ::
    "string \<Rightarrow> (string \<Rightarrow> string) \<Rightarrow> string \<Rightarrow> string \<Rightarrow> Message list \<Rightarrow> Message list" where
  "addSystemMessageAndUserPrompt systemText loadDemoImageAsB64 prompt now messages =
     messages @
     [\<lparr>Message.role = ''system'',
       Message.content = [TextContent systemText (Flag True)],
       Message.name = None, toolCallId = None, isStateMessage = None\<rparr>,
      \<lparr>Message.role = ''user'',
       Message.content =
         [TextContent ''<complex_layout_example>'' Absent,
          TextContent ''Here's an example of a complex layout. As an example, if you want to select a 'Roster' section for Colorado Rockies. Then you need to click on element with index 121.'' Absent,
          ImageContent (Some (loadDemoImageAsB64 ''complex_layout_highlight.png'')) (Some []) Absent,
          TextContent ''</complex_layout_example>'' Absent,
          TextContent ''<small_elements_example>'' Absent,
          TextContent ''Here's an example of small elements on the page and their functions. Element 7, represented by 'x' icon, is a 'clear text' button. Element 8 is a 'submit' button, represented by '=' icon. This clarification should help you better understand similar web pages.'' Absent,
          ImageContent (Some (loadDemoImageAsB64 ''complex_layout_small_elements.png'')) (Some []) Absent,
          TextContent ''</small_elements_example>'' Absent,
          TextContent ''<loading_pages_example>'' Absent,
          TextContent ''Here are some examples of loading pages. If the main content on the page is empty or if there are loading elements, such as skeleton screens, page is still loading. Then, you HAVE to perform `wait_for_page_to_load` action.'' Absent,
          ImageContent (Some (loadDemoImageAsB64 ''loading.png'')) (Some []) Absent,
          ImageContent (Some (loadDemoImageAsB64 ''loading2.png'')) (Some []) Absent,
          TextContent ''</loading_pages_example>'' Absent,
          TextContent ''<scroll_over_element_example>'' Absent,
          TextContent ''In some cases, to reveal more content, you need to scroll in scrollable areas of the webpage. Scrollable areas have VERTICAL scrollbars very clearly visible on their right side. In the screenshot below, you can clearly see a scrollbar on the right side of the list of search items. This indicates that the list is scrollable. To scroll over this area, you need to identify any element within the scrollable area and use its index with `scroll_down_over_element` action to scroll over it. In this example, approriate element is with index 15.'' Absent,
          ImageContent (Some (loadDemoImageAsB64 ''scroll.png'')) (Some []) Absent,
          TextContent ''</scroll_over_element_example>'' (Flag True),
          TextContent (''Here is the task you need to complete:'' @ [CHR 0x0A, CHR 0x0A] @ ''<task>'' @
                       [CHR 0x0A] @ prompt @ [CHR 0x0A] @ ''</task>'' @ [CHR 0x0A, CHR 0x0A] @
                       ''Today's date and time is: '' @ now @
                       '' - keep this date and time in mind when planning your actions.'') Absent],
       Message.name = None, toolCallId = None, isStateMessage = None\<rparr>]"

definition addSystemMessageAndUserPrompt_ix ::
    "string \<Rightarrow> (string \<Rightarrow> string) \<Rightarrow> string \<Rightarrow> Message list \<Rightarrow> Message list" where
  "addSystemMessageAndUserPrompt_ix systemText loadDemoImageAsB64 userPrompt messages =
     messages @
     [\<lparr>Message.role = ''system'',
       Message.content = [TextContent systemText Absent],
       Message.name = None, toolCallId = None, isStateMessage = None\<rparr>,
      \<lparr>Message.role = ''user'',
       Message.content =
         [TextContent userPrompt Absent,
          ImageContent (Some (loadDemoImageAsB64 ''complex_layout_highlight.png'')) None Absent,
          TextContent ''This is an example of highlighted elements on a complex layout. Notice the bounding boxes and labels.'' Absent,
          ImageContent (Some (loadDemoImageAsB64 ''complex_layout_clean.png'')) None Absent,
          TextContent ''This is the same page but without highlights, to help you better understand the layout.'' Absent,
          ImageContent (Some (loadDemoImageAsB64 ''complex_layout_small_elements.png'')) None Absent,
          TextContent ''This shows a page with many small elements, like this navigation menu. You need to be precise in identifying the correct elements.'' Absent,
          ImageContent (Some (loadDemoImageAsB64 ''loading.png'')) None Absent,
          TextContent ''This is an example of a loading page. If you see something like this, use wait_for_page_to_load action.'' Absent,
          ImageContent (Some (loadDemoImageAsB64 ''scroll.png'')) None Absent,
          TextContent ''This shows a page with a scrollable element (notice the scrollbar). Use scroll_down_over_element with an element ID inside the scrollable area.'' Absent],
       Message.name = None, toolCallId = None, isStateMessage = None\<rparr>]"

text \<open>
  What the builders of the managers write: a message carries the marker on at most one
  of its blocks; in the second implementation that block is a text block
  (\<^verbatim>\<open>addSystemMessageAndUserPrompt\<close>, \<^verbatim>\<open>addMessageFromModelOutput\<close>), in the first it sits
  in a non-empty state message (\<^verbatim>\<open>addMessageFromModelOutput\<close>).
\<close>

definition markedAsBuilt :: "Message \<Rightarrow> bool" where
  "markedAsBuilt m \<longleftrightarrow>
     length (filter (\<lambda>c. cacheControl c = Flag True) (Message.content m)) \<le> 1 \<and>
     list_all (\<lambda>c. cacheControl c = Flag True \<longrightarrow> is_TextContent c) (Message.content m)"

definition markedAsBuilt_ix :: "Message \<Rightarrow> bool" where
  "markedAsBuilt_ix m \<longleftrightarrow>
     length (filter (\<lambda>c. cacheControl c = Flag True) (Message.content m)) \<le> 1 \<and>
     (list_ex (\<lambda>c. cacheControl c = Flag True) (Message.content m) \<longrightarrow> stateMessage m)"

text \<open>An answer of the model whose thinking block, if any, carries no marker.\<close>

definition plainThinking :: "ContentType option \<Rightarrow> bool" where
  "plainThinking b \<longleftrightarrow> (case b of None \<Rightarrow> True | Some c \<Rightarrow> cacheControl c \<noteq> Flag True)"

section \<open>Action dispatcher (controller/controller.ts)\<close>

text \<open>
  A thrown JavaScript value is either an \<^verbatim>\<open>Error\<close> instance with its message, or any
  other value, of which only \<^verbatim>\<open>String(value)\<close> is observed. A computation that may throw
  returns \<open>Thrown + 'a\<close>, with \<open>Inl\<close> for the exception that leaves the function.
\<close>

datatype Thrown = ErrorObject string | OtherThrown string

fun messageOf :: "Thrown \<Rightarrow> string" where
  "messageOf (ErrorObject message) = message"
| "messageOf (OtherThrown shown) = shown"

datatype JsValue = JsString string | JsNumber real | JsBool bool | JsNull | BrowserHandle

record ActionResult =
  isDone :: bool
  content :: "string option"
  error :: "string option"
  giveControl :: bool

record ActionModel =
  name :: string
  params :: "(string \<rightharpoonup> JsValue) option"

text \<open>
  What a handler hands back: an \<^verbatim>\<open>ActionResult\<close> instance, a string, some other object
  (of which the four properties are read; \<open>None\<close> is \<^verbatim>\<open>undefined\<close>), or anything else
  (\<^verbatim>\<open>undefined\<close>, \<^verbatim>\<open>null\<close>, a number, a boolean).
\<close>

datatype HandlerValue =
    ResultInstance ActionResult
  | StringValue string
  | ObjectValue "bool option" "string option" "string option" "bool option"
  | OtherValue

datatype HandlerOutcome = Throws Thrown | Returns HandlerValue

record Action =
  name :: string
  description :: string
  function' :: "(string \<rightharpoonup> JsValue) \<Rightarrow> HandlerOutcome"
  browserContext :: bool

definition newActionResult :: "bool option \<Rightarrow> string option \<Rightarrow> string option \<Rightarrow> bool option \<Rightarrow> ActionResult" where
  \<comment> \<open>the constructor of the class: \<^verbatim>\<open>isDone\<close> and \<^verbatim>\<open>giveControl\<close> default to false\<close>
  "newActionResult d c e g =
     \<lparr>isDone = (case d of None \<Rightarrow> False | Some b \<Rightarrow> b), content = c, error = e,
      giveControl = (case g of None \<Rightarrow> False | Some b \<Rightarrow> b)\<rparr>"

subsection \<open>executeAction of the second implementation (tsvariant)\<close>

text \<open>
  The registry \<^verbatim>\<open>_actions\<close> is a plain object, read with \<^verbatim>\<open>this._actions[actionName]\<close>.
  Its own properties are the registered actions. A name that is not registered but is a
  member of \<^verbatim>\<open>Object.prototype\<close> is found on the prototype chain: the value read is
  truthy and has no property \<^verbatim>\<open>function\<close>, so the call inside the \<^verbatim>\<open>try\<close> block raises a
  \<^verbatim>\<open>TypeError\<close>.
\<close>

definition objectPrototypeNames :: "string list" where
  "objectPrototypeNames =
     [''constructor'', ''__defineGetter__'', ''__defineSetter__'', ''hasOwnProperty'',
      ''__lookupGetter__'', ''__lookupSetter__'', ''isPrototypeOf'', ''propertyIsEnumerable'',
      ''toString'', ''valueOf'', ''__proto__'', ''toLocaleString'']"

datatype Lookup = NotFound | Registered Action | Inherited

definition lookupAction :: "(string \<rightharpoonup> Action) \<Rightarrow> string \<Rightarrow> Lookup" where
  "lookupAction actions actionName =
     (case actions actionName of
        Some a \<Rightarrow> Registered a
      | None \<Rightarrow> if actionName \<in> set objectPrototypeNames then Inherited else NotFound)"

definition kwargsOf :: "(string \<rightharpoonup> JsValue) option \<Rightarrow> bool \<Rightarrow> JsValue option \<Rightarrow> (string \<rightharpoonup> JsValue)" where
  "kwargsOf ps needsBrowser browser =
     (let params = (case ps of None \<Rightarrow> Map.empty | Some m \<Rightarrow> m)
      in case browser of
           Some b \<Rightarrow> if needsBrowser then params(''browser'' \<mapsto> b) else params
         | None \<Rightarrow> params)"

fun normalize :: "HandlerValue \<Rightarrow> ActionResult" where
  "normalize (ResultInstance r) = r"
| "normalize (StringValue s) = newActionResult (Some False) (Some s) None None"
| "normalize (ObjectValue d c e g) =
     newActionResult (Some (case d of None \<Rightarrow> False | Some b \<Rightarrow> b)) c e g"
| "normalize OtherValue =
     newActionResult (Some False) (Some ''Action completed with no specific result'') None None"

definition tryCatch :: "Thrown + 'a \<Rightarrow> (Thrown \<Rightarrow> Thrown + 'a) \<Rightarrow> Thrown + 'a" where
  "tryCatch body handler = (case body of Inl e \<Rightarrow> handler e | Inr v \<Rightarrow> Inr v)"

definition callHandler :: "Lookup \<Rightarrow> (string \<rightharpoonup> JsValue) option \<Rightarrow> JsValue option \<Rightarrow> Thrown + HandlerValue" where
  "callHandler found ps browser =
     (case found of
        Registered a \<Rightarrow>
          (case function' a (kwargsOf ps (browserContext a) browser) of
             Throws e \<Rightarrow> Inl e
           | Returns v \<Rightarrow> Inr v)
      | _ \<Rightarrow> Inl (ErrorObject ''registeredAction.function is not a function''))"

definition executeAction :: "(string \<rightharpoonup> Action) \<Rightarrow> ActionModel \<Rightarrow> JsValue option \<Rightarrow> Thrown + ActionResult" where
  "executeAction actions action browser =
     (let actionName = ActionModel.name action;
          registeredAction = lookupAction actions actionName
      in if registeredAction = NotFound then
           Inr (newActionResult (Some False) None
                  (Some (''Action '' @ actionName @ '' not found'')) None)
         else
           tryCatch
             (case callHandler registeredAction (params action) browser of
                Inl e \<Rightarrow> Inl e
              | Inr result \<Rightarrow> Inr (normalize result))
             (\<lambda>e. Inr (newActionResult (Some False) None
                    (Some (''Error executing action '' @ actionName @ '': '' @ messageOf e))
                    None)))"

subsection \<open>executeAction of the first implementation (IndexTs)\<close>

text \<open>
  Here the registry is a \<^verbatim>\<open>Map\<close>, an unknown name raises, and so does every failure
  of the handler or of \<^verbatim>\<open>ActionResultSchema.parse\<close>, wrapped in a new \<^verbatim>\<open>Error\<close>.
  The schema accepts an object whose four properties are optional; the text of the
  validation error for any other value is not modelled beyond a fixed string.
\<close>

fun parseActionResult :: "HandlerValue \<Rightarrow> Thrown + ActionResult" where
  "parseActionResult (ResultInstance r) = Inr r"
| "parseActionResult (ObjectValue d c e g) = Inr (newActionResult d c e g)"
| "parseActionResult _ = Inl (ErrorObject ''Expected object'')"

definition executeAction_ix :: "(string \<rightharpoonup> Action) \<Rightarrow> ActionModel \<Rightarrow> JsValue option \<Rightarrow> Thrown + ActionResult" where
  "executeAction_ix actions action browser =
     (let actionName = ActionModel.name action
      in case actions actionName of
           None \<Rightarrow> Inl (ErrorObject (''Action '' @ actionName @ '' not found''))
         | Some actionDef \<Rightarrow>
             tryCatch
               (case function' actionDef (kwargsOf (params action) (browserContext actionDef) browser) of
                  Throws e \<Rightarrow> Inl e
                | Returns result \<Rightarrow> parseActionResult result)
               (\<lambda>e. Inl (ErrorObject
                  (''Error executing action '' @ actionName @ '': '' @ messageOf e))))"

definition failingAction :: Action where
  "failingAction =
     \<lparr>name = ''click'', description = ''Click'', function' = (\<lambda>kwargs. Throws (ErrorObject ''boom'')),
      browserContext = True\<rparr>"

section \<open>Streaming run (agent/agent.ts, runStream)\<close>

text \<open>
  \<^verbatim>\<open>runStream\<close> is an asynchronous generator. Its run is modelled by the list of chunks it
  yields when the caller consumes it to the end, together with the exception, if any,
  that ends it. What happens outside the agent is given by an environment: whether the
  set-up fails, for each step number what \<^verbatim>\<open>this.step\<close> does (it returns an action
  result with a summary, or throws) and whether the time limit is found exceeded at that
  step, and whether fetching the storage state or closing the browser fails. Of a chunk
  only its kind, the action result, the summary and the step count are kept.
\<close>

record StepEvent =
  outcome :: "Thrown + (ActionResult \<times> string)"
  exceeds :: bool

record Env =
  setupError :: "Thrown option"
  events :: "nat \<Rightarrow> StepEvent"
  storageError :: "Thrown option"

datatype Chunk =
    StepChunk ActionResult string
  | TimeoutChunk ActionResult string
  | StepChunkError string
  | FinalOutputChunk "ActionResult option" nat

fun isTimeoutChunk :: "Chunk \<Rightarrow> bool" where
  "isTimeoutChunk (TimeoutChunk r s) = True"
| "isTimeoutChunk _ = False"

fun isFinalOutputChunk :: "Chunk \<Rightarrow> bool" where
  "isFinalOutputChunk (FinalOutputChunk r n) = True"
| "isFinalOutputChunk _ = False"

fun isStepChunk :: "Chunk \<Rightarrow> bool" where
  "isStepChunk (StepChunk r s) = True"
| "isStepChunk _ = False"

fun isStepChunkError :: "Chunk \<Rightarrow> bool" where
  "isStepChunkError (StepChunkError msg) = True"
| "isStepChunkError _ = False"

text \<open>Decimal rendering of a natural number, as a template literal prints it.\<close>

definition digitChar :: "nat \<Rightarrow> char" where
  "digitChar d = ''0123456789'' ! d"

function showNat :: "nat \<Rightarrow> string" where
  "showNat n = (if n < 10 then [digitChar n] else showNat (n div 10) @ [digitChar (n mod 10)])"
  by pat_completeness auto
termination
  by (relation "measure id") auto

declare showNat.simps [simp del]

subsection \<open>First implementation (IndexTs)\<close>

record RunStreamOptions =
  maxSteps :: nat
  prevStep :: nat
  prevActionResult :: "ActionResult option"
  timeout :: "nat option"

text \<open>
  \<^verbatim>\<open>executeStepWithTimeout\<close> races the step against a timer when \<^verbatim>\<open>options.timeout\<close> is
  truthy (0 is not): the timer wins exactly when the step exceeds the limit. The loop
  yields the object it gets back, \<^verbatim>\<open>{type: 'step_timeout', data: chunk}\<close>, which carries
  the type tag of a timeout chunk; it is modelled by the chunk.
\<close>

datatype StepRace = StepDone "ActionResult \<times> string" | StepTimeout Chunk

definition executeStepWithTimeout :: "StepEvent \<Rightarrow> nat option \<Rightarrow> Thrown + StepRace" where
  "executeStepWithTimeout ev limit =
     (case limit of
        Some ms \<Rightarrow>
          if ms \<noteq> 0 then
            (if exceeds ev then
               Inr (StepTimeout (TimeoutChunk
                 \<lparr>isDone = False, ActionResult.content = None,
                  error = Some (''Step timed out after '' @ showNat ms @ ''ms''),
                  giveControl = False\<rparr> ''Execution timed out''))
             else (case outcome ev of Inl e \<Rightarrow> Inl e | Inr r \<Rightarrow> Inr (StepDone r)))
          else (case outcome ev of Inl e \<Rightarrow> Inl e | Inr r \<Rightarrow> Inr (StepDone r))
      | None \<Rightarrow> (case outcome ev of Inl e \<Rightarrow> Inl e | Inr r \<Rightarrow> Inr (StepDone r)))"

text \<open>
  The \<^verbatim>\<open>while\<close> loop: the chunks it yields, and \<^verbatim>\<open>actionResult\<close> and \<^verbatim>\<open>stepCount\<close>
  when it is left.
\<close>

function streamLoop_ix ::
  "Env \<Rightarrow> nat \<Rightarrow> nat option \<Rightarrow> nat \<Rightarrow> ActionResult option \<Rightarrow> bool \<Rightarrow>
     Chunk list \<times> ActionResult option \<times> nat" where
  "streamLoop_ix env maxSteps' limit stepCount actionResult done =
     (if stepCount < maxSteps' \<and> \<not> done then
        (case executeStepWithTimeout (events env stepCount) limit of
           Inr (StepTimeout chunk) \<Rightarrow> ([chunk], actionResult, stepCount)
         | Inr (StepDone (step_result, summary)) \<Rightarrow>
             (let (chunks, r, n) =
                    streamLoop_ix env maxSteps' limit (stepCount + 1) (Some step_result)
                      (isDone step_result)
              in (StepChunk step_result summary # chunks, r, n))
         | Inl e \<Rightarrow>
             (let (chunks, r, n) =
                    streamLoop_ix env maxSteps' limit (stepCount + 1) actionResult done
              in (StepChunkError
                    (''Error during step '' @ showNat stepCount @ '': '' @ messageOf e) # chunks,
                  r, n)))
      else ([], actionResult, stepCount))"
  by pat_completeness auto
termination
  by (relation "measure (\<lambda>(env, maxSteps', limit, stepCount, actionResult, done). maxSteps' - stepCount)")
     auto

declare streamLoop_ix.simps [simp del]

definition runStream_ix :: "Env \<Rightarrow> RunStreamOptions \<Rightarrow> Chunk list \<times> Thrown option" where
  "runStream_ix env options =
     (case setupError env of
        Some e \<Rightarrow> ([StepChunkError (''Error in runStream: '' @ messageOf e)], None)
      | None \<Rightarrow>
          (let (chunks, actionResult, stepCount) =
                 streamLoop_ix env (maxSteps options) (timeout options) (prevStep options)
                   (prevActionResult options) False
           in case storageError env of
                Some e \<Rightarrow>
                  (chunks @ [StepChunkError (''Error in runStream: '' @ messageOf e)], None)
              | None \<Rightarrow>
                  (chunks @
                   [FinalOutputChunk
                      (Some (case actionResult of
                               Some r \<Rightarrow> r
                             | None \<Rightarrow> \<lparr>isDone = False, ActionResult.content = None,
                                        error = Some ''No action result'', giveControl = False\<rparr>))
                      stepCount],
                   None)))"

subsection \<open>Second implementation (tsvariant)\<close>

record RunStreamOptions_v =
  prompt :: "string option"
  maxSteps :: nat
  agentState :: "string option"
  prevActionResult :: "ActionResult option"
  prevStep :: "nat option"
  timeout :: "nat option"

text \<open>
  The loop inside the \<^verbatim>\<open>try\<close> block. The time limit is checked after the step has
  returned, against the time elapsed since the start of the run. The fourth component
  tells how the \<^verbatim>\<open>try\<close> block is left: by \<^verbatim>\<open>return\<close> after a timeout chunk, by an
  exception of the step (caught and logged), or at its end.
\<close>

datatype Leave = ByReturn | ByException | AtEnd

function streamLoop_v ::
  "Env \<Rightarrow> nat \<Rightarrow> nat option \<Rightarrow> nat \<Rightarrow> ActionResult option \<Rightarrow> bool \<Rightarrow>
     Chunk list \<times> ActionResult option \<times> nat \<times> Leave" where
  "streamLoop_v env maxSteps' limit step result done =
     (if \<not> done \<and> step < maxSteps' then
        (case outcome (events env step) of
           Inl e \<Rightarrow> ([], result, step, ByException)
         | Inr (stepResult, summary) \<Rightarrow>
             (if limit \<noteq> None \<and> exceeds (events env step) then
                ([TimeoutChunk stepResult summary], Some stepResult, step + 1, ByReturn)
              else if isDone stepResult then
                ([StepChunk stepResult summary], Some stepResult, step + 1, AtEnd)
              else
                (let (chunks, r, n, l) =
                       streamLoop_v env maxSteps' limit (step + 1) (Some stepResult)
                         (isDone stepResult)
                 in (StepChunk stepResult summary # chunks, r, n, l))))
      else
        ((if \<not> done then
            [StepChunkError (''Maximum number of steps reached: '' @ showNat maxSteps')]
          else []),
         result, step, AtEnd))"
  by pat_completeness auto
termination
  by (relation "measure (\<lambda>(env, maxSteps', limit, step, result, done). maxSteps' - step)") auto

declare streamLoop_v.simps [simp del]

text \<open>
  The \<^verbatim>\<open>finally\<close> block runs however the \<^verbatim>\<open>try\<close> block was left, also after the
  \<^verbatim>\<open>return\<close> of the timeout branch, and yields the final chunk; an exception from
  \<^verbatim>\<open>getStorageState\<close> or \<^verbatim>\<open>close\<close> leaves the generator.
\<close>

definition runStream_v :: "Env \<Rightarrow> RunStreamOptions_v \<Rightarrow> Chunk list \<times> Thrown option" where
  "runStream_v env options =
     (if prompt options = None \<and> agentState options = None then
        ([], Some (ErrorObject ''Either prompt or agentState must be provided''))
      else if RunStreamOptions_v.prevStep options \<noteq> None \<and>
              (RunStreamOptions_v.prevActionResult options = None \<or>
               RunStreamOptions_v.prevStep options = Some 0 \<or> agentState options = None) then
        ([], Some (ErrorObject
           ''`prevActionResult` and `agentState` must be provided if `prevStep` is provided''))
      else
        (case setupError env of
           Some e \<Rightarrow> ([], Some e)
         | None \<Rightarrow>
             (let (chunks, result, step, l) =
                    streamLoop_v env (RunStreamOptions_v.maxSteps options)
                      (RunStreamOptions_v.timeout options)
                      (case RunStreamOptions_v.prevStep options of Some n \<Rightarrow> n | None \<Rightarrow> 0)
                      (RunStreamOptions_v.prevActionResult options) False
              in case storageError env of
                   Some e \<Rightarrow> (chunks, Some e)
                 | None \<Rightarrow> (chunks @ [FinalOutputChunk result step], None))))"

text \<open>An environment whose every step takes too long and would return a plain result.\<close>

definition slowEnv :: Env where
  "slowEnv =
     \<lparr>setupError = None,
      events = (\<lambda>n. \<lparr>outcome = Inr (\<lparr>isDone = False, ActionResult.content = Some ''ok'',
                                     error = None, giveControl = False\<rparr>, ''clicked''),
                     exceeds = True\<rparr>),
      storageError = None\<rparr>"

text \<open>An environment whose every step takes too long and would end by throwing.\<close>

definition throwingSlowEnv :: Env where
  "throwingSlowEnv =
     \<lparr>setupError = None,
      events = (\<lambda>n. \<lparr>outcome = Inl (ErrorObject ''page closed''), exceeds = True\<rparr>),
      storageError = None\<rparr>"

text \<open>
  The step at which the time limit is first found exceeded, when every earlier step of
  the run returned a result that does not end the task, within the limit.
\<close>

definition firstExceeded :: "Env \<Rightarrow> nat \<Rightarrow> nat \<Rightarrow> bool" where
  "firstExceeded env start k \<longleftrightarrow>
     start \<le> k \<and> exceeds (events env k) \<and>
     (\<forall>j. start \<le> j \<and> j < k \<longrightarrow>
        \<not> exceeds (events env j) \<and>
        (\<exists>r s. outcome (events env j) = Inr (r, s) \<and> \<not> isDone r))"

text \<open>
  The same for the first implementation, where a step that throws yields an error chunk
  and the loop goes on: every earlier step stayed within the limit and either threw or
  returned a result that does not end the task.
\<close>

definition firstExceeded_ix :: "Env \<Rightarrow> nat \<Rightarrow> nat \<Rightarrow> bool" where
  "firstExceeded_ix env start k \<longleftrightarrow>
     start \<le> k \<and> exceeds (events env k) \<and>
     (\<forall>j. start \<le> j \<and> j < k \<longrightarrow>
        \<not> exceeds (events env j) \<and>
        (\<forall>r s. outcome (events env j) = Inr (r, s) \<longrightarrow> \<not> isDone r))"

text \<open>
  The options with which the second implementation does not raise before the loop, and
  the step number at which its loop starts.
\<close>

definition validOptions_v :: "RunStreamOptions_v \<Rightarrow> bool" where
  "validOptions_v options \<longleftrightarrow>
     \<not> (prompt options = None \<and> agentState options = None) \<and>
     \<not> (RunStreamOptions_v.prevStep options \<noteq> None \<and>
        (RunStreamOptions_v.prevActionResult options = None \<or>
         RunStreamOptions_v.prevStep options = Some 0 \<or> agentState options = None))"

definition startStep_v :: "RunStreamOptions_v \<Rightarrow> nat" where
  "startStep_v options = (case RunStreamOptions_v.prevStep options of Some n \<Rightarrow> n | None \<Rightarrow> 0)"

section \<open>One step of the agent (agent/agent.ts, step)\<close>

text \<open>
  A step reads the browser, talks to the model and dispatches the chosen action. The
  browser snapshot keeps the fields the step uses. The environment of a step gives what
  \<^verbatim>\<open>browser.updateState\<close> does, what the model call with the parsing of its answer
  (\<^verbatim>\<open>_generateAction\<close>, \<^verbatim>\<open>generateAction\<close>) does on the messages sent, the registry of the
  controller and the browser handle. It also gives two texts whose formatting is not
  modelled: the description of the browser state that \<^verbatim>\<open>addCurrentStateMessage\<close> assembles
  from the previous result, the URL, the tabs and the elements, and the rendering of the
  model output by \<^verbatim>\<open>JSON.stringify\<close>. For the first implementation it gives the result
  of scaling the screenshot as well.
\<close>

record BrowserState =
  url :: string
  screenshot :: "string option"
  screenshotWithHighlights :: "string option"

record AgentLLMOutput =
  thought :: string
  action :: ActionModel
  summary :: "string option"
  thinkingBlock :: "ContentType option"

record StepEnv =
  updateState :: "Thrown + BrowserState"
  generateAction :: "Message list \<Rightarrow> Thrown + AgentLLMOutput"
  stateDescription :: "BrowserState \<Rightarrow> ActionResult option \<Rightarrow> string option \<Rightarrow> string"
  outputJson :: "AgentLLMOutput \<Rightarrow> string"
  scaledImage :: "string \<Rightarrow> string"
  actions :: "string \<rightharpoonup> Action"
  browser :: "JsValue option"

definition showInt :: "int \<Rightarrow> string" where
  "showInt i = (if i < 0 then ''-'' @ showNat (nat (- i)) else showNat (nat i))"

definition truthy :: "string option \<Rightarrow> bool" where
  \<comment> \<open>a string that is neither \<^verbatim>\<open>undefined\<close>, \<^verbatim>\<open>null\<close> nor empty\<close>
  "truthy s \<longleftrightarrow> (case s of None \<Rightarrow> False | Some t \<Rightarrow> t \<noteq> [])"

definition orEmpty :: "string option \<Rightarrow> string" where
  "orEmpty s = (case s of None \<Rightarrow> [] | Some t \<Rightarrow> t)"

subsection \<open>Second implementation (tsvariant)\<close>

definition addCurrentStateMessage ::
    "StepEnv \<Rightarrow> BrowserState \<Rightarrow> ActionResult option \<Rightarrow> string option \<Rightarrow> Message list \<Rightarrow> Message list" where
  "addCurrentStateMessage env state previousResult userFollowUpMessage messages =
     messages @
     [\<lparr>Message.role = ''user'',
       Message.content =
         [TextContent (stateDescription env state previousResult userFollowUpMessage) Absent,
          TextContent ''<current_state_clean_screenshot>'' Absent,
          ImageContent (Some (orEmpty (screenshot state))) (Some '''') Absent,
          TextContent ''</current_state_clean_screenshot>'' Absent,
          TextContent ''<current_state>'' Absent,
          ImageContent (Some (orEmpty (screenshotWithHighlights state))) (Some '''') Absent,
          TextContent ''</current_state>'' Absent],
       Message.name = None, toolCallId = None, isStateMessage = None\<rparr>]"

definition scaleB64Image_v :: "string \<Rightarrow> real \<Rightarrow> string" where
  "scaleB64Image_v img scaleFactor = img"

definition previousActionOutput :: "int \<Rightarrow> ActionResult \<Rightarrow> string" where
  "previousActionOutput step previousResult =
     (if truthy (ActionResult.content previousResult) then
        ''<action_output_'' @ showInt (step - 1) @ ''>'' @ [CHR 0x0A] @
        orEmpty (ActionResult.content previousResult) @ [CHR 0x0A] @
        ''</action_output_'' @ showInt (step - 1) @ ''>''
      else []) @
     (if truthy (error previousResult) then
        ''<action_error_'' @ showInt (step - 1) @ ''>'' @ [CHR 0x0A] @
        orEmpty (error previousResult) @ [CHR 0x0A] @
        ''</action_error_'' @ showInt (step - 1) @ ''>''
      else [])"

definition addMessageFromModelOutput ::
    "StepEnv \<Rightarrow> int \<Rightarrow> ActionResult option \<Rightarrow> AgentLLMOutput \<Rightarrow> string option \<Rightarrow> Message list \<Rightarrow> Message list" where
  "addMessageFromModelOutput env step previousResult modelOutput shot messages =
     map (\<lambda>msg. if isStateMessage msg = Some True \<and> length (Message.content msg) > 1
                then msg\<lparr>Message.content := [hd (Message.content msg)]\<rparr> else msg) messages @
     (case previousResult of
        Some r \<Rightarrow>
          if truthy shot then
            [\<lparr>Message.role = ''user'',
              Message.content =
                [TextContent (previousActionOutput step r) (Flag True),
                 TextContent (''<state_'' @ showInt step @ ''>'') Absent,
                 ImageContent (Some (scaleB64Image_v (orEmpty shot) 0.75)) (Some '''') Absent,
                 TextContent (''</state_'' @ showInt step @ ''>'') Absent],
              Message.name = None, toolCallId = None, isStateMessage = Some True\<rparr>]
          else []
      | None \<Rightarrow> []) @
     [\<lparr>Message.role = ''assistant'',
       Message.content =
         (case thinkingBlock modelOutput of Some b \<Rightarrow> [b] | None \<Rightarrow> []) @
         [TextContent (''<output_'' @ showInt step @ ''>'' @ [CHR 0x0A] @ outputJson env modelOutput @
                       [CHR 0x0A] @ ''</output_'' @ showInt step @ ''>'') Absent],
       Message.name = None, toolCallId = None, isStateMessage = Some False\<rparr>]"

text \<open>
  \<^verbatim>\<open>step\<close>: the outcome (the pair of action result and summary, or the exception that
  leaves the function) and the history afterwards. The \<^verbatim>\<open>catch\<close> block around the model
  call, the new messages and the dispatch removes the last message and rethrows.
\<close>

definition step_v ::
    "StepEnv \<Rightarrow> int \<Rightarrow> ActionResult option \<Rightarrow> Message list \<Rightarrow>
       (Thrown + ActionResult \<times> string) \<times> Message list" where
  "step_v env step previousResult messages =
     (case updateState env of
        Inl e \<Rightarrow> (Inl e, messages)
      | Inr state \<Rightarrow>
          (let added = (case previousResult of
                          Some r \<Rightarrow> addCurrentStateMessage env state (Some r) None messages
                        | None \<Rightarrow> messages);
               inputMessages = getMessages added
           in case generateAction env inputMessages of
                Inl e \<Rightarrow> (Inl e, removeLastMessage inputMessages)
              | Inr modelOutput \<Rightarrow>
                  (let removed = (if previousResult \<noteq> None then removeLastMessage inputMessages
                                  else inputMessages);
                       extended = addMessageFromModelOutput env step previousResult modelOutput
                                    (screenshot state) removed
                   in case executeAction (actions env) (action modelOutput) (browser env) of
                        Inl e \<Rightarrow> (Inl e, removeLastMessage extended)
                      | Inr result \<Rightarrow> (Inr (result, orEmpty (summary modelOutput)), extended))))"

subsection \<open>First implementation (IndexTs)\<close>

definition addCurrentStateMessage_ix ::
    "StepEnv \<Rightarrow> BrowserState \<Rightarrow> ActionResult option \<Rightarrow> Message list \<Rightarrow> Message list" where
  "addCurrentStateMessage_ix env state prevResult messages =
     messages @
     [\<lparr>Message.role = ''user'',
       Message.content =
         [TextContent (stateDescription env state prevResult None) Absent] @
         (if truthy (screenshot state) then
            [ImageContent (screenshot state) None Absent,
             TextContent ''<current_state_clean_screenshot>'' Absent]
          else []) @
         (if truthy (screenshotWithHighlights state) then
            [ImageContent (screenshotWithHighlights state) None Absent,
             TextContent ''<current_state>'' Absent]
          else []),
       Message.name = None, toolCallId = None, isStateMessage = None\<rparr>]"

definition addMessageFromModelOutput_ix ::
    "StepEnv \<Rightarrow> AgentLLMOutput \<Rightarrow> string option \<Rightarrow> Message list \<Rightarrow> Message list" where
  "addMessageFromModelOutput_ix env modelOutput stateScreenshot messages =
     map (\<lambda>msg. if Message.role msg = ''user'' \<and> isStateMessage msg = Some True
                then msg\<lparr>Message.content := filter is_TextContent (Message.content msg)\<rparr> else msg)
       messages @
     [\<lparr>Message.role = ''assistant'',
       Message.content =
         (case thinkingBlock modelOutput of
            Some b \<Rightarrow> [ThinkingBlock (thinking b) (signature b) Absent]
          | None \<Rightarrow> []) @
         [TextContent (''<output_step>'' @ [CHR 0x0A] @ outputJson env modelOutput @ [CHR 0x0A] @
                       ''</output_step>'') Absent],
       Message.name = None, toolCallId = None, isStateMessage = None\<rparr>] @
     (if truthy stateScreenshot then
        [\<lparr>Message.role = ''user'',
          Message.content =
            [ImageContent (Some (scaledImage env (orEmpty stateScreenshot))) None (Flag True),
             TextContent ''<state_step>'' Absent],
          Message.name = None, toolCallId = None, isStateMessage = Some True\<rparr>]
      else [])"

text \<open>
  \<^verbatim>\<open>step\<close> of the first implementation, once the agent is set up. Nothing catches an
  exception of the model call or of the dispatch: it leaves the function with the
  history as it is at that moment.
\<close>

definition step_ix ::
    "StepEnv \<Rightarrow> ActionResult option \<Rightarrow> Message list \<Rightarrow>
       (Thrown + ActionResult \<times> string) \<times> Message list" where
  "step_ix env prevResult messages =
     (case updateState env of
        Inl e \<Rightarrow> (Inl e, messages)
      | Inr state \<Rightarrow>
          (let sent = getMessages_ix (addCurrentStateMessage_ix env state prevResult messages)
           in case generateAction env sent of
                Inl e \<Rightarrow> (Inl e, sent)
              | Inr output \<Rightarrow>
                  (let currentMessages = butlast (getMessages_ix sent);
                       extended = addMessageFromModelOutput_ix env output (screenshot state)
                                    currentMessages
                   in case executeAction_ix (actions env) (action output) (browser env) of
                        Inl e \<Rightarrow> (Inl e, extended)
                      | Inr actionResult \<Rightarrow>
                          (Inr (actionResult, orEmpty (summary output)), extended))))"

text \<open>An environment in which the model call fails, and a previous result.\<close>

definition failingModel :: StepEnv where
  "failingModel =
     \<lparr>updateState = Inr \<lparr>url = ''about:blank'', screenshot = Some ''AAAA'',
                         screenshotWithHighlights = Some ''BBBB''\<rparr>,
      generateAction = (\<lambda>messages. Inl (ErrorObject ''Could not parse response'')),
      stateDescription = (\<lambda>state previousResult followUp. ''Current URL: about:blank''),
      outputJson = (\<lambda>modelOutput. ''{}''),
      scaledImage = (\<lambda>img. img),
      actions = Map.empty,
      browser = Some BrowserHandle\<rparr>"

definition clicked :: ActionResult where
  "clicked = \<lparr>isDone = False, ActionResult.content = Some ''Clicked'', error = None,
              giveControl = False\<rparr>"

section \<open>Filtering and ordering of elements (browser/utils.ts)\<close>

subsection \<open>Array.prototype.sort\<close>

text \<open>
  \<^verbatim>\<open>sort\<close> with a comparator is stable; it is modelled by a stable insertion sort, in
  which \<open>e\<close> goes before \<open>f\<close> when \<^verbatim>\<open>compare(e, f) <= 0\<close>. For a comparator that is a
  total preorder every stable sort gives this list; for any other comparator
  (the one of \<^verbatim>\<open>sortElementsByPosition\<close> of the first implementation is not transitive)
  the order is left to the engine, and the model fixes one.

  The passes read the elements through accessor functions: the same definitions then
  serve for arrays of element values and for arrays of references into a store.
\<close>

fun insertSorted :: "('a \<Rightarrow> 'a \<Rightarrow> real) \<Rightarrow> 'a \<Rightarrow> 'a list \<Rightarrow> 'a list" where
  "insertSorted compare e [] = [e]"
| "insertSorted compare e (f # fs) =
     (if compare e f \<le> 0 then e # f # fs else f # insertSorted compare e fs)"

definition sortWith :: "('a \<Rightarrow> 'a \<Rightarrow> real) \<Rightarrow> 'a list \<Rightarrow> 'a list" where
  "sortWith compare xs = foldr (insertSorted compare) xs []"

subsection \<open>filterOverlappingElements (IndexTs)\<close>

definition byAreaThenWeight :: "('a \<Rightarrow> Rect) \<Rightarrow> ('a \<Rightarrow> real) \<Rightarrow> 'a \<Rightarrow> 'a \<Rightarrow> real" where
  "byAreaThenWeight rectOf weightOf a b =
     (let areaA = Rect.width (rectOf a) * Rect.height (rectOf a);
          areaB = Rect.width (rectOf b) * Rect.height (rectOf b)
      in if areaB \<noteq> areaA then areaB - areaA else weightOf b - weightOf a)"

text \<open>
  After the sort the function runs a first nested pass that fills
  \<^verbatim>\<open>filteredElements\<close> and \<^verbatim>\<open>removedIndices\<close>; neither is read afterwards and nothing
  else is written, so that pass is left out. The result is \<^verbatim>\<open>finalFiltered\<close>, built by
  the \<^verbatim>\<open>forEach\<close> that follows.

  \<open>scanKept\<close> is the inner loop for one element \<open>current\<close>: it walks \<^verbatim>\<open>finalFiltered\<close>
  from its last entry to its first, so the kept elements are held newest first. It
  returns \<^verbatim>\<open>overlapsExisting\<close> and the kept elements after the splices.
\<close>

fun scanKept :: "('a \<Rightarrow> Rect) \<Rightarrow> real \<Rightarrow> 'a \<Rightarrow> 'a list \<Rightarrow> bool \<times> 'a list" where
  "scanKept rectOf iouThreshold current [] = (False, [])"
| "scanKept rectOf iouThreshold current (existing # older) =
     (if calculateIou (rectOf current) (rectOf existing) > iouThreshold then
        (True, existing # older)
      else if isFullyContained (rectOf current) (rectOf existing) then
        (True, existing # older)
      else if isFullyContained (rectOf existing) (rectOf current) then
        scanKept rectOf iouThreshold current older
      else
        (let (overlapsExisting, older') = scanKept rectOf iouThreshold current older
         in (overlapsExisting, existing # older')))"

fun keepEach :: "('a \<Rightarrow> Rect) \<Rightarrow> real \<Rightarrow> 'a list \<Rightarrow> 'a list \<Rightarrow> 'a list" where
  "keepEach rectOf iouThreshold kept [] = kept"
| "keepEach rectOf iouThreshold kept (current # rest) =
     (let (overlapsExisting, kept') = scanKept rectOf iouThreshold current kept
      in keepEach rectOf iouThreshold (if overlapsExisting then kept' else current # kept') rest)"

definition finalFiltered :: "('a \<Rightarrow> Rect) \<Rightarrow> real \<Rightarrow> 'a list \<Rightarrow> 'a list" where
  "finalFiltered rectOf iouThreshold elements = rev (keepEach rectOf iouThreshold [] elements)"

definition filterOverlappingElements :: "real \<Rightarrow> InteractiveElement list \<Rightarrow> InteractiveElement list" where
  "filterOverlappingElements iouThreshold elements =
     (if elements = [] then []
      else finalFiltered rect iouThreshold (sortWith (byAreaThenWeight rect weight) elements))"

subsection \<open>filterOverlappingElements (tsvariant)\<close>

text \<open>
  The element of the second implementation: its \<^verbatim>\<open>rect\<close> is a record of numbers, read
  at \<^verbatim>\<open>x\<close>, \<^verbatim>\<open>y\<close>, \<^verbatim>\<open>width\<close> and \<^verbatim>\<open>height\<close>.
\<close>

record RectXY =
  x :: real
  y :: real
  width :: real
  height :: real

record InteractiveElement_v =
  index :: int
  tagName :: string
  text' :: string
  attributes :: "(string \<times> string) list"
  viewport :: Coordinates
  page :: Coordinates
  center :: Coordinates
  weight :: real
  browserAgentId :: string
  inputType :: "string option"
  rect :: RectXY
  zIndex :: int

definition byAreaThenWeight_v :: "('a \<Rightarrow> RectXY) \<Rightarrow> ('a \<Rightarrow> real) \<Rightarrow> 'a \<Rightarrow> 'a \<Rightarrow> real" where
  "byAreaThenWeight_v rectOf weightOf a b =
     (let areaA = RectXY.width (rectOf a) * RectXY.height (rectOf a);
          areaB = RectXY.width (rectOf b) * RectXY.height (rectOf b)
      in if areaB \<noteq> areaA then areaB - areaA else weightOf b - weightOf a)"

definition edgesOf :: "RectXY \<Rightarrow> Edges" where
  "edgesOf r =
     \<lparr>Edges.left = RectXY.x r, Edges.top = RectXY.y r,
      Edges.right = RectXY.x r + RectXY.width r, Edges.bottom = RectXY.y r + RectXY.height r\<rparr>"

text \<open>
  The inner loop walks \<^verbatim>\<open>filteredElements\<close> from the first entry on and stops at the
  first \<^verbatim>\<open>break\<close>; it returns \<^verbatim>\<open>shouldAdd\<close> and the array after a possible splice.
\<close>

fun scanFiltered ::
    "('a \<Rightarrow> RectXY) \<Rightarrow> ('a \<Rightarrow> real) \<Rightarrow> ('a \<Rightarrow> int) \<Rightarrow> real \<Rightarrow> 'a \<Rightarrow> 'a list \<Rightarrow> bool \<times> 'a list" where
  "scanFiltered rectOf weightOf zOf iouThreshold current [] = (True, [])"
| "scanFiltered rectOf weightOf zOf iouThreshold current (existing # later) =
     (let currentRect = edgesOf (rectOf current);
          existingRect = edgesOf (rectOf existing)
      in if calculateIOU currentRect existingRect > iouThreshold then (False, existing # later)
         else if isFullyContained_v currentRect existingRect then
           (if weightOf existing \<ge> weightOf current \<and> zOf existing = zOf current then
              (False, existing # later)
            else if RectXY.width (rectOf current) * RectXY.height (rectOf current)
                      \<ge> RectXY.width (rectOf existing) * RectXY.height (rectOf existing) * 0.5 then
              (True, later)
            else
              (let (shouldAdd, later') = scanFiltered rectOf weightOf zOf iouThreshold current later
               in (shouldAdd, existing # later')))
         else
           (let (shouldAdd, later') = scanFiltered rectOf weightOf zOf iouThreshold current later
            in (shouldAdd, existing # later')))"

fun addEach ::
    "('a \<Rightarrow> RectXY) \<Rightarrow> ('a \<Rightarrow> real) \<Rightarrow> ('a \<Rightarrow> int) \<Rightarrow> real \<Rightarrow> 'a list \<Rightarrow> 'a list \<Rightarrow> 'a list" where
  "addEach rectOf weightOf zOf iouThreshold filteredElements [] = filteredElements"
| "addEach rectOf weightOf zOf iouThreshold filteredElements (current # rest) =
     (let (shouldAdd, filtered') =
            scanFiltered rectOf weightOf zOf iouThreshold current filteredElements
      in addEach rectOf weightOf zOf iouThreshold
           (if shouldAdd then filtered' @ [current] else filtered') rest)"

definition filterWith ::
    "('a \<Rightarrow> RectXY) \<Rightarrow> ('a \<Rightarrow> real) \<Rightarrow> ('a \<Rightarrow> int) \<Rightarrow> real \<Rightarrow> 'a list \<Rightarrow> 'a list" where
  "filterWith rectOf weightOf zOf iouThreshold elements =
     (if elements = [] then []
      else addEach rectOf weightOf zOf iouThreshold []
             (sortWith (byAreaThenWeight_v rectOf weightOf) elements))"

definition filterOverlappingElements_v :: "real \<Rightarrow> InteractiveElement_v list \<Rightarrow> InteractiveElement_v list" where
  "filterOverlappingElements_v iouThreshold elements =
     filterWith InteractiveElement_v.rect InteractiveElement_v.weight zIndex iouThreshold elements"

text \<open>An element of the second implementation at a given place, with a weight and a z-index.\<close>

definition element_v :: "real \<Rightarrow> real \<Rightarrow> real \<Rightarrow> real \<Rightarrow> real \<Rightarrow> int \<Rightarrow> InteractiveElement_v" where
  "element_v px py w h wt z =
     \<lparr>InteractiveElement_v.index = 0, tagName = ''div'', InteractiveElement_v.text' = [],
      InteractiveElement_v.attributes = [],
      InteractiveElement_v.viewport = \<lparr>Coordinates.x = px, Coordinates.y = py,
         Coordinates.width = Some w, Coordinates.height = Some h\<rparr>,
      InteractiveElement_v.page = \<lparr>Coordinates.x = px, Coordinates.y = py,
         Coordinates.width = Some w, Coordinates.height = Some h\<rparr>,
      InteractiveElement_v.center = \<lparr>Coordinates.x = px + w / 2, Coordinates.y = py + h / 2,
         Coordinates.width = None, Coordinates.height = None\<rparr>,
      InteractiveElement_v.weight = wt, browserAgentId = ''id'', inputType = None,
      InteractiveElement_v.rect = \<lparr>RectXY.x = px, RectXY.y = py, RectXY.width = w, RectXY.height = h\<rparr>,
      zIndex = z\<rparr>"

text \<open>
  The relations used to state what the filter of the first implementation achieves:
  \<open>precedes\<close> is the order of its sort, and a newer kept element is \<open>compatible\<close> with
  an older one when none of the three tests of the inner loop fires.
\<close>

definition precedes :: "('a \<Rightarrow> Rect) \<Rightarrow> ('a \<Rightarrow> real) \<Rightarrow> 'a \<Rightarrow> 'a \<Rightarrow> bool" where
  "precedes rectOf weightOf a b \<longleftrightarrow> byAreaThenWeight rectOf weightOf a b \<le> 0"

definition compatible :: "('a \<Rightarrow> Rect) \<Rightarrow> real \<Rightarrow> 'a \<Rightarrow> 'a \<Rightarrow> bool" where
  "compatible rectOf iouThreshold current existing \<longleftrightarrow>
     \<not> calculateIou (rectOf current) (rectOf existing) > iouThreshold \<and>
     \<not> isFullyContained (rectOf current) (rectOf existing) \<and>
     \<not> isFullyContained (rectOf existing) (rectOf current)"

section \<open>Ordering and fusion on a store of objects\<close>

text \<open>
  Whether a pass changes its inputs depends on which arrays and objects are shared. The
  store keeps the element objects and the arrays (lists of references to objects) by
  reference, with the next free reference of each kind. A function takes the
  references of its argument arrays and the store, and returns the reference of the
  array it returns with the store afterwards.
\<close>

record 'e Store =
  objects :: "nat \<Rightarrow> 'e"
  arrays :: "nat \<Rightarrow> nat list"
  nextObject :: nat
  nextArray :: nat

definition newArray :: "nat list \<Rightarrow> 'e Store \<Rightarrow> nat \<times> 'e Store" where
  "newArray refs st =
     (nextArray st, st\<lparr>arrays := (arrays st)(nextArray st := refs), nextArray := Suc (nextArray st)\<rparr>)"

fun newObjects :: "'e list \<Rightarrow> 'e Store \<Rightarrow> nat list \<times> 'e Store" where
  "newObjects [] st = ([], st)"
| "newObjects (e # es) st =
     (let r = nextObject st;
          (refs, st') = newObjects es (st\<lparr>objects := (objects st)(r := e), nextObject := Suc r\<rparr>)
      in (r # refs, st'))"

definition sortArray :: "('e \<Rightarrow> 'e \<Rightarrow> real) \<Rightarrow> nat \<Rightarrow> 'e Store \<Rightarrow> 'e Store" where
  \<comment> \<open>\<^verbatim>\<open>array.sort(compare)\<close> sorts the array in place\<close>
  "sortArray compare arr st =
     st\<lparr>arrays := (arrays st)(arr := sortWith (\<lambda>a b. compare (objects st a) (objects st b))
                                       (arrays st arr))\<rparr>"

subsection \<open>First implementation (IndexTs)\<close>

definition byPosition :: "InteractiveElement \<Rightarrow> InteractiveElement \<Rightarrow> real" where
  "byPosition a b =
     (let yDiff = Rect.top (InteractiveElement.rect a) - Rect.top (InteractiveElement.rect b)
      in if \<bar>yDiff\<bar> > 20 then yDiff
         else Rect.left (InteractiveElement.rect a) - Rect.left (InteractiveElement.rect b))"

definition filterOverlappingElements_st ::
    "real \<Rightarrow> nat \<Rightarrow> InteractiveElement Store \<Rightarrow> nat \<times> InteractiveElement Store" where
  "filterOverlappingElements_st iouThreshold elements st =
     (if arrays st elements = [] then newArray [] st
      else
        (let st1 = sortArray (byAreaThenWeight InteractiveElement.rect InteractiveElement.weight)
                     elements st
         in newArray (finalFiltered (\<lambda>a. InteractiveElement.rect (objects st1 a)) iouThreshold
                        (arrays st1 elements)) st1))"

text \<open>
  \<^verbatim>\<open>sortElementsByPosition\<close> sorts its argument in place and returns a new array of new
  objects, each a copy of an element with \<^verbatim>\<open>index\<close> set to its position.
\<close>

definition sortElementsByPosition_st ::
    "nat \<Rightarrow> InteractiveElement Store \<Rightarrow> nat \<times> InteractiveElement Store" where
  "sortElementsByPosition_st elements st =
     (if arrays st elements = [] then newArray [] st
      else
        (let st1 = sortArray byPosition elements st;
             (refs, st2) =
               newObjects (map (\<lambda>(i, a). (objects st1 a)\<lparr>InteractiveElement.index := int i\<rparr>)
                             (enumerate 0 (arrays st1 elements))) st1
         in newArray refs st2))"

definition combineAndFilterElements_st ::
    "real \<Rightarrow> nat \<Rightarrow> nat \<Rightarrow> InteractiveElement Store \<Rightarrow> nat \<times> InteractiveElement Store" where
  "combineAndFilterElements_st iouThreshold browserElements cvElements st =
     (let (allElements, st1) = newArray (arrays st browserElements @ arrays st cvElements) st;
          (filtered, st2) = filterOverlappingElements_st iouThreshold allElements st1
      in sortElementsByPosition_st filtered st2)"

subsection \<open>Second implementation (tsvariant)\<close>

text \<open>
  Here the passes sort copies (\<^verbatim>\<open>[...elements].sort\<close>) and build new arrays; of these
  only the array returned is entered in the store, the others never leave the function.
  \<^verbatim>\<open>sortElementsByPosition\<close> groups the elements, sorted by \<^verbatim>\<open>y\<close>, into rows, sorts each
  row by \<^verbatim>\<open>x\<close>, flattens the rows and then writes \<^verbatim>\<open>sortedElements[i].index = i\<close> into
  the element objects themselves.
\<close>

fun groupRows :: "('a \<Rightarrow> real) \<Rightarrow> 'a list \<Rightarrow> 'a list \<Rightarrow> 'a list list" where
  "groupRows yOf currentRow [] = (if currentRow \<noteq> [] then [currentRow] else [])"
| "groupRows yOf currentRow (element # rest) =
     (if currentRow = [] then groupRows yOf [element] rest
      else if \<bar>yOf element - yOf (last currentRow)\<bar> \<le> 20 then
        groupRows yOf (currentRow @ [element]) rest
      else currentRow # groupRows yOf [element] rest)"

definition orderWith :: "('a \<Rightarrow> real) \<Rightarrow> ('a \<Rightarrow> real) \<Rightarrow> 'a list \<Rightarrow> 'a list" where
  "orderWith xOf yOf elements =
     (let sortedByY = sortWith (\<lambda>a b. yOf a - yOf b) elements;
          rows = groupRows yOf [] sortedByY
      in concat (map (sortWith (\<lambda>a b. xOf a - xOf b)) rows))"

fun assignIndices :: "nat list \<Rightarrow> nat \<Rightarrow> InteractiveElement_v Store \<Rightarrow> InteractiveElement_v Store" where
  "assignIndices [] i st = st"
| "assignIndices (r # refs) i st =
     assignIndices refs (Suc i)
       (st\<lparr>objects := (objects st)(r := (objects st r)\<lparr>InteractiveElement_v.index := int i\<rparr>)\<rparr>)"

definition filterOverlappingElements_vst ::
    "real \<Rightarrow> nat \<Rightarrow> InteractiveElement_v Store \<Rightarrow> nat \<times> InteractiveElement_v Store" where
  "filterOverlappingElements_vst iouThreshold elements st =
     newArray (filterWith (\<lambda>a. InteractiveElement_v.rect (objects st a))
                 (\<lambda>a. InteractiveElement_v.weight (objects st a)) (\<lambda>a. zIndex (objects st a))
                 iouThreshold (arrays st elements)) st"

definition sortElementsByPosition_vst ::
    "nat \<Rightarrow> InteractiveElement_v Store \<Rightarrow> nat \<times> InteractiveElement_v Store" where
  "sortElementsByPosition_vst elements st =
     (if arrays st elements = [] then newArray [] st
      else
        (let sortedElements =
               orderWith (\<lambda>a. RectXY.x (InteractiveElement_v.rect (objects st a)))
                 (\<lambda>a. RectXY.y (InteractiveElement_v.rect (objects st a))) (arrays st elements)
         in newArray sortedElements (assignIndices sortedElements 0 st)))"

definition combineAndFilterElements_vst ::
    "real \<Rightarrow> nat \<Rightarrow> nat \<Rightarrow> InteractiveElement_v Store \<Rightarrow> nat \<times> InteractiveElement_v Store" where
  "combineAndFilterElements_vst iouThreshold browserElements cvElements st =
     (let (allElements, st1) = newArray (arrays st browserElements @ arrays st cvElements) st;
          (filtered, st2) = filterOverlappingElements_vst iouThreshold allElements st1
      in sortElementsByPosition_vst filtered st2)"

text \<open>
  A store is well formed for two input arrays when both are allocated and hold
  references to allocated objects; the inputs are separate when no object occurs twice
  in them. \<open>indicesOf\<close> reads the \<^verbatim>\<open>index\<close> fields along an array.
\<close>

definition wellFormed :: "'e Store \<Rightarrow> nat \<Rightarrow> nat \<Rightarrow> bool" where
  "wellFormed st browserElements cvElements \<longleftrightarrow>
     browserElements < nextArray st \<and> cvElements < nextArray st \<and>
     list_all (\<lambda>r. r < nextObject st) (arrays st browserElements @ arrays st cvElements)"

definition separate :: "'e Store \<Rightarrow> nat \<Rightarrow> nat \<Rightarrow> bool" where
  "separate st browserElements cvElements \<longleftrightarrow>
     distinct (arrays st browserElements @ arrays st cvElements)"

definition indicesOf :: "InteractiveElement Store \<Rightarrow> nat \<Rightarrow> int list" where
  "indicesOf st arr = map (\<lambda>r. InteractiveElement.index (objects st r)) (arrays st arr)"

definition indicesOf_v :: "InteractiveElement_v Store \<Rightarrow> nat \<Rightarrow> int list" where
  "indicesOf_v st arr = map (\<lambda>r. InteractiveElement_v.index (objects st r)) (arrays st arr)"

text \<open>An element of the first implementation at a given place, and two small stores.\<close>

definition element :: "int \<Rightarrow> real \<Rightarrow> real \<Rightarrow> real \<Rightarrow> real \<Rightarrow> InteractiveElement" where
  "element i l t w h =
     \<lparr>InteractiveElement.index = i, browser_agent_id = ''id'', tag_name = ''div'',
      InteractiveElement.text' = [], InteractiveElement.attributes = [],
      InteractiveElement.viewport = \<lparr>Coordinates.x = l, Coordinates.y = t,
         Coordinates.width = Some w, Coordinates.height = Some h\<rparr>,
      InteractiveElement.page = \<lparr>Coordinates.x = l, Coordinates.y = t,
         Coordinates.width = Some w, Coordinates.height = Some h\<rparr>,
      InteractiveElement.center = \<lparr>Coordinates.x = l + w / 2, Coordinates.y = t + h / 2,
         Coordinates.width = None, Coordinates.height = None\<rparr>,
      InteractiveElement.weight = 1, input_type = None,
      InteractiveElement.rect = \<lparr>Rect.left = l, Rect.top = t, Rect.right = l + w,
         Rect.bottom = t + h, Rect.width = w, Rect.height = h\<rparr>,
      z_index = 0\<rparr>"

definition store2 :: "InteractiveElement Store" where
  "store2 =
     \<lparr>objects = (\<lambda>r. if r = 0 then element 7 100 0 10 10 else element 9 0 0 10 10),
      arrays = (\<lambda>a. if a = 0 then [0] else if a = 1 then [1] else []),
      nextObject = 2, nextArray = 2\<rparr>"

definition store2_v :: "InteractiveElement_v Store" where
  "store2_v =
     \<lparr>objects = (\<lambda>r. if r = 0 then (element_v 100 0 10 10 1 0)\<lparr>InteractiveElement_v.index := 7\<rparr>
                     else (element_v 0 0 10 10 1 0)\<lparr>InteractiveElement_v.index := 9\<rparr>),
      arrays = (\<lambda>a. if a = 0 then [0] else if a = 1 then [1] else []),
      nextObject = 2, nextArray = 2\<rparr>"

text \<open>Two elements that agree on every field except, possibly, \<^verbatim>\<open>index\<close>.\<close>

definition sameExceptIndex :: "InteractiveElement_v \<Rightarrow> InteractiveElement_v \<Rightarrow> bool" where
  "sameExceptIndex e e' \<longleftrightarrow> e' = e\<lparr>InteractiveElement_v.index := InteractiveElement_v.index e'\<rparr>"

section \<open>Image utilities (browser/utils.ts)\<close>

text \<open>
  The first implementation draws with the \<^verbatim>\<open>sharp\<close> library. What the library does is
  given by an environment: reading the metadata of the decoded image (its width and
  height, either of which may be missing), compositing a list of overlays onto the
  image and encoding the result in base64, and resizing. Each of these may fail; the
  decoding by \<^verbatim>\<open>Buffer.from(s, 'base64')\<close> does not. An image is represented by the
  base64 string it was decoded from.
\<close>

datatype Svg = BorderSvg int int nat | LabelSvg int int nat string

record Overlay =
  input :: Svg
  left :: int
  top :: int

record PlacedLabel =
  left :: int
  top :: int
  right :: int
  bottom :: int

record Sharp =
  metadata :: "string \<Rightarrow> Thrown + nat option \<times> nat option"
  composite :: "string \<Rightarrow> Overlay list \<Rightarrow> Thrown + string"
  resize :: "string \<Rightarrow> int \<Rightarrow> int \<Rightarrow> Thrown + string"

definition colors :: "(nat \<times> nat \<times> nat) list" where
  "colors = [(204, 0, 0), (0, 136, 0), (0, 0, 204), (204, 112, 0), (102, 0, 102), (0, 102, 102),
             (204, 51, 153), (44, 0, 102), (204, 35, 0), (28, 102, 66), (170, 0, 0), (36, 82, 123)]"

definition mathRound :: "real \<Rightarrow> int" where
  \<comment> \<open>\<^verbatim>\<open>Math.round\<close>: to the nearest integer, halves upwards\<close>
  "mathRound v = \<lfloor>v + 1 / 2\<rfloor>"

definition startsWith :: "string \<Rightarrow> string \<Rightarrow> bool" where
  "startsWith s p \<longleftrightarrow> take (length p) s = p"

definition labelAt :: "int \<Rightarrow> int \<Rightarrow> int \<Rightarrow> int \<Rightarrow> PlacedLabel" where
  "labelAt labelX labelY labelWidth labelHeight =
     \<lparr>PlacedLabel.left = labelX, PlacedLabel.top = labelY, right = labelX + labelWidth,
      bottom = labelY + labelHeight\<rparr>"

text \<open>
  The loop over the labels placed so far: a label that overlaps one of them is moved
  below it, and the walk goes on with the moved label. It returns the final \<^verbatim>\<open>labelY\<close>.
\<close>

fun avoidLabels :: "int \<Rightarrow> int \<Rightarrow> int \<Rightarrow> int \<Rightarrow> PlacedLabel list \<Rightarrow> int" where
  "avoidLabels labelX labelY labelWidth labelHeight [] = labelY"
| "avoidLabels labelX labelY labelWidth labelHeight (existing # others) =
     (let currentLabelRect = labelAt labelX labelY labelWidth labelHeight;
          overlaps = \<not> (right currentLabelRect < PlacedLabel.left existing \<or>
                         PlacedLabel.left currentLabelRect > right existing \<or>
                         bottom currentLabelRect < PlacedLabel.top existing \<or>
                         PlacedLabel.top currentLabelRect > bottom existing)
      in avoidLabels labelX (if overlaps then bottom existing + 2 else labelY) labelWidth
           labelHeight others)"

text \<open>
  The body of the loop over the entries of the element map for one entry that is not
  skipped: the border overlay, the label overlay and the place the label takes.
\<close>

definition highlightOne ::
    "int \<Rightarrow> int \<Rightarrow> nat \<Rightarrow> InteractiveElement \<Rightarrow> PlacedLabel list \<Rightarrow> Overlay \<times> Overlay \<times> PlacedLabel" where
  "highlightOne imageWidth imageHeight i el placedLabels =
     (let color = i mod length colors;
          r = InteractiveElement.viewport el;
          rectWidth = max 1 (mathRound (case Coordinates.width r of None \<Rightarrow> 1 | Some w \<Rightarrow> w));
          rectHeight = max 1 (mathRound (case Coordinates.height r of None \<Rightarrow> 1 | Some h \<Rightarrow> h));
          rectX = mathRound (Coordinates.x r);
          rectY = mathRound (Coordinates.y r);
          label = showNat i;
          labelWidth = mathRound (real (length label) * (14 * 0.6) + 3 * 2);
          labelHeight = mathRound (14 + 3 * 2);
          labelX0 = (if labelWidth > rectWidth \<or> labelHeight > rectHeight then rectX + rectWidth
                     else rectX + rectWidth - labelWidth);
          labelY0 = avoidLabels labelX0 rectY labelWidth labelHeight placedLabels;
          labelX1 = (if labelX0 < 0 then 0 else labelX0);
          labelX2 = (if labelX1 + labelWidth \<ge> imageWidth then imageWidth - labelWidth - 1
                     else labelX1);
          labelY1 = (if labelY0 < 0 then 0 else labelY0);
          labelY2 = (if labelY1 + labelHeight \<ge> imageHeight then imageHeight - labelHeight - 1
                     else labelY1)
      in (\<lparr>input = BorderSvg rectWidth rectHeight color, Overlay.left = rectX, Overlay.top = rectY\<rparr>,
          \<lparr>input = LabelSvg labelWidth labelHeight color label, Overlay.left = labelX2,
            Overlay.top = labelY2\<rparr>,
          labelAt labelX2 labelY2 labelWidth labelHeight))"

text \<open>
  The loop over the entries, in the order of \<^verbatim>\<open>for ... in\<close>; the helper elements of
  spreadsheets are skipped. It returns the overlays and the labels placed.
\<close>

fun highlightEach ::
    "int \<Rightarrow> int \<Rightarrow> (nat \<times> InteractiveElement) list \<Rightarrow> Overlay list \<Rightarrow> PlacedLabel list \<Rightarrow>
       Overlay list \<times> PlacedLabel list" where
  "highlightEach imageWidth imageHeight [] compositeOperations placedLabels =
     (compositeOperations, placedLabels)"
| "highlightEach imageWidth imageHeight (entry # entries) compositeOperations placedLabels =
     (if startsWith (browser_agent_id (snd entry)) ''row_'' \<or>
         startsWith (browser_agent_id (snd entry)) ''column_''
      then highlightEach imageWidth imageHeight entries compositeOperations placedLabels
      else
        (case highlightOne imageWidth imageHeight (fst entry) (snd entry) placedLabels of
           (border, labelOverlay, placed) \<Rightarrow>
             highlightEach imageWidth imageHeight entries
               (compositeOperations @ [border, labelOverlay]) (placedLabels @ [placed])))"

definition putHighlightElementsOnScreenshot ::
    "Sharp \<Rightarrow> (nat \<times> InteractiveElement) list \<Rightarrow> string \<Rightarrow> Thrown + string" where
  "putHighlightElementsOnScreenshot sharp elements screenshotB64 =
     tryCatch
       (case metadata sharp screenshotB64 of
          Inl e \<Rightarrow> Inl e
        | Inr (w, h) \<Rightarrow>
            (let imageWidth = (case w of None \<Rightarrow> 0 | Some n \<Rightarrow> int n);
                 imageHeight = (case h of None \<Rightarrow> 0 | Some n \<Rightarrow> int n)
             in composite sharp screenshotB64
                  (fst (highlightEach imageWidth imageHeight elements [] []))))
       (\<lambda>e. Inr screenshotB64)"

definition dimensionsKnown :: "nat option \<times> nat option \<Rightarrow> bool" where
  \<comment> \<open>neither \<^verbatim>\<open>!metadata.width\<close> nor \<^verbatim>\<open>!metadata.height\<close>\<close>
  "dimensionsKnown wh \<longleftrightarrow>
     (case wh of (Some w, Some h) \<Rightarrow> w \<noteq> 0 \<and> h \<noteq> 0 | _ \<Rightarrow> False)"

definition scaleB64Image :: "Sharp \<Rightarrow> string \<Rightarrow> real \<Rightarrow> Thrown + string" where
  "scaleB64Image sharp img scaleFactor =
     tryCatch
       (case metadata sharp img of
          Inl e \<Rightarrow> Inl e
        | Inr wh \<Rightarrow>
            if \<not> dimensionsKnown wh then Inr img
            else
              (let newWidth = mathRound (real (the (fst wh)) * scaleFactor);
                   newHeight = mathRound (real (the (snd wh)) * scaleFactor)
               in resize sharp img newWidth newHeight))
       (\<lambda>e. Inr img)"

text \<open>
  The second implementation leaves both operations as placeholders that return the
  image they were given (\<^const>\<open>scaleB64Image_v\<close> is defined with the step above).
\<close>

definition putHighlightElementsOnScreenshot_v ::
    "(nat \<times> InteractiveElement_v) list \<Rightarrow> string \<Rightarrow> string" where
  "putHighlightElementsOnScreenshot_v elements screenshotB64 = screenshotB64"

text \<open>A library in which nothing can be decoded.\<close>

definition brokenSharp :: Sharp where
  "brokenSharp =
     \<lparr>metadata = (\<lambda>img. Inl (ErrorObject ''Input buffer contains unsupported image format'')),
      composite = (\<lambda>img overlays. Inl (ErrorObject ''composite failed'')),
      resize = (\<lambda>img w h. Inl (ErrorObject ''resize failed''))\<rparr>"

section \<open>Theorems\<close>

subsection \<open>Intersection over union\<close>

lemma calculateIou_sym: "calculateIou a b = calculateIou b a"
  by (simp add: calculateIou_def Let_def min.commute max.commute add.commute)

lemma calculateIOU_edges_of:
  "rect_inv a \<Longrightarrow> rect_inv b \<Longrightarrow> calculateIOU (edges_of a) (edges_of b) = calculateIou a b"
  by (simp add: calculateIOU_def calculateIou_def edges_of_def rect_inv_def Let_def)

lemma calculateIou_self:
  assumes "rect_inv a"
  shows "calculateIou a a = (if 0 < Rect.width a * Rect.height a then 1 else 0)"
proof -
  define A where "A = Rect.width a * Rect.height a"
  from assms have inter: "(Rect.right a - Rect.left a) * (Rect.bottom a - Rect.top a) = A"
    by (simp add: rect_inv_def A_def)
  from assms have ok: "\<not> (Rect.right a < Rect.left a \<or> Rect.bottom a < Rect.top a)"
    by (auto simp: rect_inv_def)
  have "calculateIou a a = (if A + A - A > 0 then A / (A + A - A) else 0)"
    unfolding calculateIou_def Let_def min.idem max.idem inter A_def [symmetric]
    using ok by simp
  also have "\<dots> = (if 0 < A then 1 else 0)"
    by simp
  finally show ?thesis
    unfolding A_def .
qed

text \<open>
  C5, as stated, fails: the degenerate rectangle with all six fields 0 satisfies the
  invariant and is identical to itself, yet its union area is 0 and both functions
  return 0, not 1.
\<close>

theorem calculateIou_identical_counterexample:
  "rect_inv \<lparr>Rect.left = 0, Rect.top = 0, Rect.right = 0, Rect.bottom = 0, Rect.width = 0, Rect.height = 0\<rparr> \<and>
   calculateIou \<lparr>Rect.left = 0, Rect.top = 0, Rect.right = 0, Rect.bottom = 0, Rect.width = 0, Rect.height = 0\<rparr>
                \<lparr>Rect.left = 0, Rect.top = 0, Rect.right = 0, Rect.bottom = 0, Rect.width = 0, Rect.height = 0\<rparr> \<noteq> 1 \<and>
   calculateIOU \<lparr>Edges.left = 0, Edges.top = 0, Edges.right = 0, Edges.bottom = 0\<rparr>
                \<lparr>Edges.left = 0, Edges.top = 0, Edges.right = 0, Edges.bottom = 0\<rparr> \<noteq> 1"
  by (simp add: rect_inv_def calculateIou_def calculateIOU_def)

text \<open>
  C5, amended: for rectangles satisfying the invariant, \<^const>\<open>calculateIou\<close> (and
  \<^const>\<open>calculateIOU\<close> on the same edges, which agrees with it) returns 0 when the
  rectangles do not intersect, returns 1 on two identical rectangles of positive area
  (and 0 on two identical rectangles of area 0), returns 0 when the union area is not
  positive, and is symmetric.
\<close>

theorem calculateIou_correct:
  assumes "rect_inv a" and "rect_inv b"
  shows "(disjoint_rects a b \<longrightarrow> calculateIou a b = 0) \<and>
         (0 < Rect.width a * Rect.height a \<longrightarrow> calculateIou a a = 1) \<and>
         (Rect.width a * Rect.height a = 0 \<longrightarrow> calculateIou a a = 0) \<and>
         (unionArea a b \<le> 0 \<longrightarrow> calculateIou a b = 0) \<and>
         calculateIou a b = calculateIou b a \<and>
         calculateIOU (edges_of a) (edges_of b) = calculateIou a b"
proof (intro conjI impI)
  assume "disjoint_rects a b"
  then show "calculateIou a b = 0"
    by (simp add: calculateIou_def disjoint_rects_def Let_def)
next
  assume "0 < Rect.width a * Rect.height a"
  with assms(1) show "calculateIou a a = 1"
    by (simp add: calculateIou_self)
next
  assume "Rect.width a * Rect.height a = 0"
  then have "\<not> 0 < Rect.width a * Rect.height a"
    by linarith
  with assms(1) show "calculateIou a a = 0"
    by (simp only: calculateIou_self if_False)
next
  assume "unionArea a b \<le> 0"
  then show "calculateIou a b = 0"
    by (simp add: calculateIou_def unionArea_def Let_def)
next
  show "calculateIou a b = calculateIou b a"
    by (rule calculateIou_sym)
next
  from assms show "calculateIOU (edges_of a) (edges_of b) = calculateIou a b"
    by (rule calculateIOU_edges_of)
qed

theorem calculateIou_correct_witness:
  "rect_inv \<lparr>Rect.left = 0, Rect.top = 0, Rect.right = 2, Rect.bottom = 2, Rect.width = 2, Rect.height = 2\<rparr> \<and>
   rect_inv \<lparr>Rect.left = 1, Rect.top = 0, Rect.right = 3, Rect.bottom = 2, Rect.width = 2, Rect.height = 2\<rparr> \<and>
   calculateIou \<lparr>Rect.left = 0, Rect.top = 0, Rect.right = 2, Rect.bottom = 2, Rect.width = 2, Rect.height = 2\<rparr>
                \<lparr>Rect.left = 0, Rect.top = 0, Rect.right = 2, Rect.bottom = 2, Rect.width = 2, Rect.height = 2\<rparr> = 1 \<and>
   calculateIou \<lparr>Rect.left = 0, Rect.top = 0, Rect.right = 2, Rect.bottom = 2, Rect.width = 2, Rect.height = 2\<rparr>
                \<lparr>Rect.left = 1, Rect.top = 0, Rect.right = 3, Rect.bottom = 2, Rect.width = 2, Rect.height = 2\<rparr>
     = calculateIou \<lparr>Rect.left = 1, Rect.top = 0, Rect.right = 3, Rect.bottom = 2, Rect.width = 2, Rect.height = 2\<rparr>
                    \<lparr>Rect.left = 0, Rect.top = 0, Rect.right = 2, Rect.bottom = 2, Rect.width = 2, Rect.height = 2\<rparr>"
proof -
  have a: "rect_inv \<lparr>Rect.left = 0, Rect.top = 0, Rect.right = 2, Rect.bottom = 2, Rect.width = 2, Rect.height = 2\<rparr>"
    by (simp add: rect_inv_def)
  have b: "rect_inv \<lparr>Rect.left = 1, Rect.top = 0, Rect.right = 3, Rect.bottom = 2, Rect.width = 2, Rect.height = 2\<rparr>"
    by (simp add: rect_inv_def)
  from calculateIou_correct [OF a b] a b show ?thesis
    by simp
qed

subsection \<open>Rollback of the last message\<close>

text \<open>
  C10: \<^const>\<open>removeLastMessage\<close> removes a message (the last one) only when the history
  holds more than one message, leaves a history of zero or one messages unchanged, and
  so never removes the first message of a history.
\<close>

theorem removeLastMessage_guard:
  "(length messages > 1 \<longrightarrow> removeLastMessage messages = butlast messages) \<and>
   (length messages \<le> 1 \<longrightarrow> removeLastMessage messages = messages) \<and>
   (messages \<noteq> [] \<longrightarrow>
      removeLastMessage messages \<noteq> [] \<and> hd (removeLastMessage messages) = hd messages)"
proof (intro conjI impI)
  assume "messages \<noteq> []"
  then obtain m rest where "messages = m # rest"
    by (cases messages) auto
  then show "hd (removeLastMessage messages) = hd messages"
    by (cases rest) (simp_all add: removeLastMessage_def)
  from \<open>messages = m # rest\<close> show "removeLastMessage messages \<noteq> []"
    by (cases rest) (simp_all add: removeLastMessage_def)
qed (simp_all add: removeLastMessage_def)

theorem removeLastMessage_guard_witness:
  "removeLastMessage [textMsg ''system'' [(''s'', Flag True)], textMsg ''user'' [(''u'', Absent)]]
     = [textMsg ''system'' [(''s'', Flag True)]] \<and>
   removeLastMessage [textMsg ''system'' [(''s'', Flag True)]]
     = [textMsg ''system'' [(''s'', Flag True)]] \<and>
   removeLastMessage [] = []"
  using removeLastMessage_guard
          [of "[textMsg ''system'' [(''s'', Flag True)], textMsg ''user'' [(''u'', Absent)]]"]
        removeLastMessage_guard [of "[textMsg ''system'' [(''s'', Flag True)]]"]
        removeLastMessage_guard [of "[]"]
  by simp

subsection \<open>The cache marker when the history is sent\<close>

lemma ex_later_Cons_0:
  "(\<exists>j. 0 < j \<and> j < length (m # ms) \<and> P ((m # ms) ! j)) \<longleftrightarrow> (\<exists>x \<in> set ms. P x)"
proof
  assume "\<exists>j. 0 < j \<and> j < length (m # ms) \<and> P ((m # ms) ! j)"
  then obtain j where j: "0 < j" "j < length (m # ms)" "P ((m # ms) ! j)" by blast
  then obtain k where "j = Suc k" by (cases j) auto
  with j have "k < length ms" "P (ms ! k)" by simp_all
  then show "\<exists>x \<in> set ms. P x" using nth_mem by blast
next
  assume "\<exists>x \<in> set ms. P x"
  then obtain k where "k < length ms" "P (ms ! k)" by (auto simp: in_set_conv_nth)
  then show "\<exists>j. 0 < j \<and> j < length (m # ms) \<and> P ((m # ms) ! j)"
    by (intro exI [of _ "Suc k"]) simp
qed

lemma ex_later_Cons_Suc:
  "(\<exists>j. Suc k < j \<and> j < length (m # ms) \<and> P ((m # ms) ! j)) \<longleftrightarrow>
   (\<exists>j. k < j \<and> j < length ms \<and> P (ms ! j))"
proof
  assume "\<exists>j. Suc k < j \<and> j < length (m # ms) \<and> P ((m # ms) ! j)"
  then obtain j where j: "Suc k < j" "j < length (m # ms)" "P ((m # ms) ! j)" by blast
  then obtain j' where "j = Suc j'" by (cases j) auto
  with j show "\<exists>j. k < j \<and> j < length ms \<and> P (ms ! j)" by (intro exI [of _ j']) simp
next
  assume "\<exists>j. k < j \<and> j < length ms \<and> P (ms ! j)"
  then obtain j where "k < j" "j < length ms" "P (ms ! j)" by blast
  then show "\<exists>j. Suc k < j \<and> j < length (m # ms) \<and> P ((m # ms) ! j)"
    by (intro exI [of _ "Suc j"]) simp
qed

lemma role_removeCacheControl [simp]: "Message.role (removeCacheControl m) = Message.role m"
  by (simp add: removeCacheControl_def)

lemma not_has_clearFlag: "\<not> (is_TextContent (clearFlag c) \<and> cacheControl (clearFlag c) = Flag True)"
  by (cases c) auto

lemma hasCacheControl_removeCacheControl [simp]: "\<not> hasCacheControl (removeCacheControl m)"
  using not_has_clearFlag by (auto simp: hasCacheControl_def removeCacheControl_def list_ex_iff)

lemma length_sweepCache [simp]: "length (snd (sweepCache ms)) = length ms"
  by (induction ms) (auto simp: Let_def split: prod.splits)

lemma fst_sweepCache:
  "fst (sweepCache ms) \<longleftrightarrow> (\<exists>m \<in> set ms. Message.role m \<noteq> ''system'' \<and> hasCacheControl m)"
  by (induction ms) (auto simp: Let_def split: prod.splits)

lemma sweepCache_Cons:
  "snd (sweepCache (m # ms)) =
     (if Message.role m \<noteq> ''system'' \<and> fst (sweepCache ms) then removeCacheControl m else m)
       # snd (sweepCache ms)"
  by (auto simp: Let_def split: prod.splits)

lemma sweepCache_nth:
  "i < length ms \<Longrightarrow>
   snd (sweepCache ms) ! i =
     (if Message.role (ms ! i) \<noteq> ''system'' \<and> laterMarked ms i then removeCacheControl (ms ! i)
      else ms ! i)"
  unfolding laterMarked_def
proof (induction ms arbitrary: i)
  case Nil
  then show ?case by simp
next
  case (Cons m ms)
  show ?case
  proof (cases i)
    case 0
    then show ?thesis
      by (simp only: sweepCache_Cons nth_Cons_0 fst_sweepCache
            ex_later_Cons_0 [of m ms "\<lambda>x. Message.role x \<noteq> ''system'' \<and> hasCacheControl x"])
  next
    case (Suc k)
    with Cons.prems have k: "k < length ms" by simp
    from Suc Cons.IH [OF k] show ?thesis
      by (simp only: sweepCache_Cons nth_Cons_Suc
            ex_later_Cons_Suc [of k m ms "\<lambda>x. Message.role x \<noteq> ''system'' \<and> hasCacheControl x"])
  qed
qed

lemma markedMessages_sweepCache:
  "length (markedMessages (snd (sweepCache ms))) = (if fst (sweepCache ms) then 1 else 0)"
  by (induction ms) (auto simp: markedMessages_def Let_def split: prod.splits)

lemma length_sweepState [simp]: "length (snd (sweepState ms)) = length ms"
  by (induction ms) (auto simp: Let_def split: prod.splits)

lemma fst_sweepState: "fst (sweepState ms) \<longleftrightarrow> (\<exists>m \<in> set ms. stateMessage m)"
  by (induction ms) (auto simp: Let_def split: prod.splits)

lemma sweepState_Cons:
  "snd (sweepState (m # ms)) =
     (if stateMessage m \<and> fst (sweepState ms) then m\<lparr>Message.content := map setUndefined (Message.content m)\<rparr>
      else m) # snd (sweepState ms)"
  by (auto simp: Let_def split: prod.splits)

lemma sweepState_nth:
  "i < length ms \<Longrightarrow>
   snd (sweepState ms) ! i =
     (if stateMessage (ms ! i) \<and> laterState ms i
      then (ms ! i)\<lparr>Message.content := map setUndefined (Message.content (ms ! i))\<rparr> else ms ! i)"
  unfolding laterState_def
proof (induction ms arbitrary: i)
  case Nil
  then show ?case by simp
next
  case (Cons m ms)
  show ?case
  proof (cases i)
    case 0
    then show ?thesis
      by (simp only: sweepState_Cons nth_Cons_0 fst_sweepState ex_later_Cons_0 [of m ms stateMessage])
  next
    case (Suc k)
    with Cons.prems have k: "k < length ms" by simp
    from Suc Cons.IH [OF k] show ?thesis
      by (simp only: sweepState_Cons nth_Cons_Suc ex_later_Cons_Suc [of k m ms stateMessage])
  qed
qed

text \<open>
  What \<^const>\<open>getMessages\<close> does to any history, message by message: the second
  implementation clears the text blocks of every non-system message that is followed by
  a non-system message with a marked text block, the first clears all blocks of every
  non-empty state message that is followed by another one; every other message is
  returned as it was.
\<close>

lemma getMessages_elementwise:
  "length (getMessages ms) = length ms \<and>
   length (markedMessages (getMessages ms)) \<le> 1 \<and>
   (\<forall>i < length ms.
      getMessages ms ! i =
        (if Message.role (ms ! i) \<noteq> ''system'' \<and> laterMarked ms i then removeCacheControl (ms ! i)
         else ms ! i)) \<and>
   length (getMessages_ix ms) = length ms \<and>
   (\<forall>i < length ms.
      getMessages_ix ms ! i =
        (if stateMessage (ms ! i) \<and> laterState ms i
         then (ms ! i)\<lparr>Message.content := map setUndefined (Message.content (ms ! i))\<rparr> else ms ! i))"
  by (simp add: getMessages_def getMessages_ix_def sweepCache_nth sweepState_nth
        markedMessages_sweepCache)

text \<open>
  The markers are cleared message by message, so the last marked message is returned
  with all the markers it has. No builder writes two markers into one message; a history
  handed to \<^verbatim>\<open>setMessages\<close> with such a message keeps both.
\<close>

lemma getMessages_two_markers_in_one_message:
  "length (markedBlocks (getMessages
      [textMsg ''user'' [(''a'', Flag True), (''b'', Flag True)]])) = 2 \<and>
   length (markedBlocks (getMessages_ix
      [textMsg ''user'' [(''a'', Flag True), (''b'', Flag True)]])) = 2"
  by (simp add: getMessages_def getMessages_ix_def markedBlocks_def textMsg_def
        hasCacheControl_def stateMessage_def)

lemma marked_clearFlag:
  "(cacheControl c = Flag True \<longrightarrow> is_TextContent c) \<Longrightarrow> cacheControl (clearFlag c) \<noteq> Flag True"
  by (cases c) auto

lemma marked_removeCacheControl:
  assumes "markedAsBuilt m"
  shows "filter (\<lambda>c. cacheControl c = Flag True) (Message.content (removeCacheControl m)) = []"
proof -
  from assms have "\<forall>c \<in> set (Message.content m). cacheControl c = Flag True \<longrightarrow> is_TextContent c"
    by (simp add: markedAsBuilt_def list_all_iff)
  then have "\<forall>c \<in> set (Message.content m). cacheControl (clearFlag c) \<noteq> Flag True"
    using marked_clearFlag by blast
  then show ?thesis
    by (simp add: removeCacheControl_def filter_empty_conv)
qed

lemma hasCacheControl_markedAsBuilt:
  "markedAsBuilt m \<Longrightarrow>
   hasCacheControl m \<longleftrightarrow> filter (\<lambda>c. cacheControl c = Flag True) (Message.content m) \<noteq> []"
  by (auto simp: markedAsBuilt_def hasCacheControl_def list_all_iff list_ex_iff filter_empty_conv)

lemma markedBlocks_Cons:
  "markedBlocks (m # ms) =
     (if Message.role m \<noteq> ''system''
      then filter (\<lambda>c. cacheControl c = Flag True) (Message.content m) else []) @ markedBlocks ms"
  by (simp add: markedBlocks_def)

lemma at_most_one_last: "length xs \<le> 1 \<Longrightarrow> xs \<noteq> [] \<Longrightarrow> xs = [last xs]"
  by (cases xs) auto

lemma fst_sweepCache_Cons:
  "fst (sweepCache (m # ms)) \<longleftrightarrow>
     fst (sweepCache ms) \<or> Message.role m \<noteq> ''system'' \<and> hasCacheControl m"
  by (auto simp: Let_def split: prod.splits)

lemma markedBlocks_sweepCache:
  "list_all markedAsBuilt ms \<Longrightarrow>
   markedBlocks (snd (sweepCache ms)) = (if markedBlocks ms = [] then [] else [last (markedBlocks ms)]) \<and>
   (fst (sweepCache ms) \<longleftrightarrow> markedBlocks ms \<noteq> [])"
proof (induction ms)
  case Nil
  then show ?case by (simp add: markedBlocks_def)
next
  case (Cons m ms)
  then have m: "markedAsBuilt m" and ms: "list_all markedAsBuilt ms"
    by simp_all
  note IH = Cons.IH [OF ms]
  let ?mb = "filter (\<lambda>c. cacheControl c = Flag True) (Message.content m)"
  from m have le: "length ?mb \<le> 1"
    by (simp add: markedAsBuilt_def)
  show ?case
  proof (cases "Message.role m = ''system''")
    case True
    with IH show ?thesis
      by (simp add: markedBlocks_Cons sweepCache_Cons fst_sweepCache_Cons del: sweepCache.simps)
  next
    case False
    show ?thesis
    proof (cases "fst (sweepCache ms)")
      case True
      with IH have ne: "markedBlocks ms \<noteq> []"
        and r: "markedBlocks (snd (sweepCache ms)) = [last (markedBlocks ms)]"
        by simp_all
      from True False r ne marked_removeCacheControl [OF m] show ?thesis
        by (simp add: markedBlocks_Cons sweepCache_Cons fst_sweepCache_Cons del: sweepCache.simps)
    next
      case F: False
      with IH have e: "markedBlocks ms = []" "markedBlocks (snd (sweepCache ms)) = []"
        by simp_all
      show ?thesis
      proof (cases "?mb = []")
        case True
        with F False e hasCacheControl_markedAsBuilt [OF m] show ?thesis
          by (simp add: markedBlocks_Cons sweepCache_Cons fst_sweepCache_Cons del: sweepCache.simps)
      next
        case ne: False
        with le have "?mb = [last ?mb]"
          by (rule at_most_one_last)
        with ne F False e hasCacheControl_markedAsBuilt [OF m] show ?thesis
          by (simp add: markedBlocks_Cons sweepCache_Cons fst_sweepCache_Cons del: sweepCache.simps)
      qed
    qed
  qed
qed

lemma marked_setUndefined: "cacheControl (setUndefined c) \<noteq> Flag True"
  by (cases c) auto

lemma fst_sweepState_Cons: "fst (sweepState (m # ms)) \<longleftrightarrow> fst (sweepState ms) \<or> stateMessage m"
  by (auto simp: Let_def split: prod.splits)

lemma markedBlocks_sweepState:
  "list_all markedAsBuilt_ix ms \<Longrightarrow>
   length (markedBlocks (snd (sweepState ms))) \<le> 1 \<and>
   (\<not> fst (sweepState ms) \<longrightarrow> markedBlocks (snd (sweepState ms)) = [])"
proof (induction ms)
  case Nil
  then show ?case by (simp add: markedBlocks_def)
next
  case (Cons m ms)
  then have m: "markedAsBuilt_ix m" and ms: "list_all markedAsBuilt_ix ms"
    by simp_all
  note IH = Cons.IH [OF ms]
  let ?mb = "filter (\<lambda>c. cacheControl c = Flag True) (Message.content m)"
  from m have le: "length ?mb \<le> 1" and st: "\<not> stateMessage m \<Longrightarrow> ?mb = []"
    by (auto simp: markedAsBuilt_ix_def list_ex_iff filter_empty_conv)
  show ?case
  proof (cases "stateMessage m")
    case True
    show ?thesis
    proof (cases "fst (sweepState ms)")
      case T: True
      with True IH show ?thesis
        by (simp add: markedBlocks_Cons sweepState_Cons fst_sweepState_Cons filter_empty_conv
              marked_setUndefined del: sweepState.simps)
    next
      case False
      with True IH le show ?thesis
        by (simp add: markedBlocks_Cons sweepState_Cons fst_sweepState_Cons del: sweepState.simps)
    qed
  next
    case False
    with IH st show ?thesis
      by (simp add: markedBlocks_Cons sweepState_Cons fst_sweepState_Cons del: sweepState.simps)
  qed
qed

text \<open>
  The builders keep the shape of the markers: \<^const>\<open>markedAsBuilt\<close> holds of every
  message of a history that \<^verbatim>\<open>addSystemMessageAndUserPrompt\<close> started and the steps of the
  agent extended, when the thinking blocks the model returns carry no marker; so does
  \<^const>\<open>markedAsBuilt_ix\<close> in the first implementation, which rebuilds the thinking block.
\<close>

lemma markedAsBuilt_removeCacheControl: "markedAsBuilt m \<Longrightarrow> markedAsBuilt (removeCacheControl m)"
  using marked_removeCacheControl [of m]
  by (simp add: markedAsBuilt_def list_all_iff filter_empty_conv)

lemma markedAsBuilt_sweepCache:
  "list_all markedAsBuilt ms \<Longrightarrow> list_all markedAsBuilt (snd (sweepCache ms))"
  by (induction ms) (simp_all add: sweepCache_Cons markedAsBuilt_removeCacheControl del: sweepCache.simps(2))

lemma markedAsBuilt_getMessages:
  "list_all markedAsBuilt ms \<Longrightarrow> list_all markedAsBuilt (getMessages ms)"
  by (simp add: getMessages_def markedAsBuilt_sweepCache)

lemma list_all_butlast: "list_all P xs \<Longrightarrow> list_all P (butlast xs)"
  by (auto simp: list_all_iff dest: in_set_butlastD)

lemma markedAsBuilt_removeLastMessage:
  "list_all markedAsBuilt ms \<Longrightarrow> list_all markedAsBuilt (removeLastMessage ms)"
  by (simp add: removeLastMessage_def list_all_butlast)

lemma markedAsBuilt_addSystemMessageAndUserPrompt:
  "list_all markedAsBuilt ms \<Longrightarrow>
   list_all markedAsBuilt (addSystemMessageAndUserPrompt systemText loader task now ms)"
  by (simp add: addSystemMessageAndUserPrompt_def markedAsBuilt_def)

lemma markedAsBuilt_addCurrentStateMessage:
  "list_all markedAsBuilt ms \<Longrightarrow>
   list_all markedAsBuilt (addCurrentStateMessage env state previousResult followUp ms)"
  by (simp add: addCurrentStateMessage_def markedAsBuilt_def)

lemma markedAsBuilt_first_entry:
  assumes "markedAsBuilt m" and "length (Message.content m) > 1"
  shows "markedAsBuilt (m\<lparr>Message.content := [hd (Message.content m)]\<rparr>)"
proof -
  from assms(2) obtain c cs where "Message.content m = c # cs"
    by (cases "Message.content m") auto
  with assms(1) show ?thesis
    by (auto simp: markedAsBuilt_def split: if_splits)
qed

lemma markedAsBuilt_addMessageFromModelOutput:
  assumes "list_all markedAsBuilt ms" and "plainThinking (thinkingBlock modelOutput)"
  shows "list_all markedAsBuilt
           (addMessageFromModelOutput env step previousResult modelOutput shot ms)"
proof -
  from assms(1) have "list_all markedAsBuilt
     (map (\<lambda>msg. if isStateMessage msg = Some True \<and> length (Message.content msg) > 1
                 then msg\<lparr>Message.content := [hd (Message.content msg)]\<rparr> else msg) ms)"
    by (auto simp: list_all_iff markedAsBuilt_first_entry)
  with assms(2) show ?thesis
    by (auto simp: addMessageFromModelOutput_def markedAsBuilt_def plainThinking_def
          split: option.splits)
qed

lemma markedAsBuilt_step_v:
  assumes "list_all markedAsBuilt ms"
    and "\<forall>sent modelOutput. generateAction env sent = Inr modelOutput \<longrightarrow>
           plainThinking (thinkingBlock modelOutput)"
  shows "list_all markedAsBuilt (snd (step_v env step previousResult ms))"
proof (cases "updateState env")
  case (Inl e)
  with assms(1) show ?thesis
    by (simp add: step_v_def)
next
  case (Inr state)
  define added where "added = (case previousResult of
      Some r \<Rightarrow> addCurrentStateMessage env state (Some r) None ms | None \<Rightarrow> ms)"
  from assms(1) have sent: "list_all markedAsBuilt (getMessages added)"
    unfolding added_def
    by (auto intro!: markedAsBuilt_getMessages markedAsBuilt_addCurrentStateMessage
          split: option.splits)
  show ?thesis
  proof (cases "generateAction env (getMessages added)")
    case (Inl e)
    with Inr sent show ?thesis
      by (simp add: step_v_def added_def [symmetric] markedAsBuilt_removeLastMessage)
  next
    case out: (Inr modelOutput)
    with assms(2) have pt: "plainThinking (thinkingBlock modelOutput)"
      by blast
    define removed where "removed = (if previousResult \<noteq> None
      then removeLastMessage (getMessages added) else getMessages added)"
    from sent have "list_all markedAsBuilt removed"
      by (simp add: removed_def markedAsBuilt_removeLastMessage)
    then have ext: "list_all markedAsBuilt
        (addMessageFromModelOutput env step previousResult modelOutput (screenshot state) removed)"
      using pt by (rule markedAsBuilt_addMessageFromModelOutput)
    show ?thesis
    proof (cases "executeAction (actions env) (action modelOutput) (browser env)")
      case (Inl e)
      with Inr out have "snd (step_v env step previousResult ms) = removeLastMessage
          (addMessageFromModelOutput env step previousResult modelOutput (screenshot state) removed)"
        by (auto simp: step_v_def added_def [symmetric] removed_def Let_def)
      with ext show ?thesis
        by (simp add: markedAsBuilt_removeLastMessage)
    next
      case res: (Inr result)
      with Inr out have "snd (step_v env step previousResult ms) =
          addMessageFromModelOutput env step previousResult modelOutput (screenshot state) removed"
        by (auto simp: step_v_def added_def [symmetric] removed_def Let_def)
      with ext show ?thesis
        by simp
    qed
  qed
qed

lemma markedAsBuilt_ix_cleared:
  "markedAsBuilt_ix (m\<lparr>Message.content := map setUndefined (Message.content m)\<rparr>)"
  by (simp add: markedAsBuilt_ix_def list_ex_iff filter_empty_conv marked_setUndefined)

lemma markedAsBuilt_ix_sweepState:
  "list_all markedAsBuilt_ix ms \<Longrightarrow> list_all markedAsBuilt_ix (snd (sweepState ms))"
  by (induction ms) (simp_all add: sweepState_Cons markedAsBuilt_ix_cleared del: sweepState.simps(2))

lemma markedAsBuilt_ix_getMessages:
  "list_all markedAsBuilt_ix ms \<Longrightarrow> list_all markedAsBuilt_ix (getMessages_ix ms)"
  by (simp add: getMessages_ix_def markedAsBuilt_ix_sweepState)

lemma markedAsBuilt_ix_addSystemMessageAndUserPrompt:
  "list_all markedAsBuilt_ix ms \<Longrightarrow>
   list_all markedAsBuilt_ix (addSystemMessageAndUserPrompt_ix systemText loader task ms)"
  by (simp add: addSystemMessageAndUserPrompt_ix_def markedAsBuilt_ix_def)

lemma markedAsBuilt_ix_addCurrentStateMessage:
  "list_all markedAsBuilt_ix ms \<Longrightarrow>
   list_all markedAsBuilt_ix (addCurrentStateMessage_ix env state prevResult ms)"
  by (simp add: addCurrentStateMessage_ix_def markedAsBuilt_ix_def)

lemma markedAsBuilt_ix_text_only:
  assumes "markedAsBuilt_ix m"
  shows "markedAsBuilt_ix (m\<lparr>Message.content := filter is_TextContent (Message.content m)\<rparr>)"
proof -
  let ?P = "\<lambda>c. cacheControl c = Flag True"
  have "length (filter ?P (filter is_TextContent xs)) \<le> length (filter ?P xs)" for xs
    by (induction xs) auto
  then have "length (filter ?P (filter is_TextContent (Message.content m)))
      \<le> length (filter ?P (Message.content m))" .
  moreover have "list_ex ?P (filter is_TextContent (Message.content m)) \<Longrightarrow>
      list_ex ?P (Message.content m) \<and> length (filter is_TextContent (Message.content m)) > 0"
    by (auto simp: list_ex_iff length_greater_0_conv filter_empty_conv)
  ultimately show ?thesis
    using assms by (auto simp: markedAsBuilt_ix_def stateMessage_def)
qed

lemma markedAsBuilt_ix_addMessageFromModelOutput:
  assumes "list_all markedAsBuilt_ix ms"
  shows "list_all markedAsBuilt_ix (addMessageFromModelOutput_ix env modelOutput shot ms)"
proof -
  from assms have "list_all markedAsBuilt_ix
     (map (\<lambda>msg. if Message.role msg = ''user'' \<and> isStateMessage msg = Some True
                 then msg\<lparr>Message.content := filter is_TextContent (Message.content msg)\<rparr> else msg) ms)"
    by (auto simp: list_all_iff markedAsBuilt_ix_text_only)
  then show ?thesis
    by (auto simp: addMessageFromModelOutput_ix_def markedAsBuilt_ix_def stateMessage_def
          split: option.splits)
qed

lemma markedAsBuilt_ix_step:
  assumes "list_all markedAsBuilt_ix ms"
  shows "list_all markedAsBuilt_ix (snd (step_ix env prevResult ms))"
proof (cases "updateState env")
  case (Inl e)
  with assms show ?thesis
    by (simp add: step_ix_def)
next
  case (Inr state)
  define sent where "sent = getMessages_ix (addCurrentStateMessage_ix env state prevResult ms)"
  from assms have sent: "list_all markedAsBuilt_ix sent"
    unfolding sent_def
    by (intro markedAsBuilt_ix_getMessages markedAsBuilt_ix_addCurrentStateMessage)
  then have "list_all markedAsBuilt_ix (butlast (getMessages_ix sent))"
    by (intro list_all_butlast markedAsBuilt_ix_getMessages)
  then have "\<And>output. list_all markedAsBuilt_ix
      (addMessageFromModelOutput_ix env output (screenshot state) (butlast (getMessages_ix sent)))"
    by (rule markedAsBuilt_ix_addMessageFromModelOutput)
  with Inr sent show ?thesis
    by (auto simp: step_ix_def sent_def [symmetric] Let_def split: sum.splits)
qed

text \<open>
  C3. In a history as the manager builds it (each message with the marker on at most one
  block; in the second implementation on a text block, in the first in a non-empty state
  message), after \<^const>\<open>getMessages\<close> a scan of the non-system messages finds at most one
  block with the marker set. In the second implementation it is the last marked block of
  the history before the call, and every non-system message followed by a marked one
  has no marked block left. In the first implementation a block still marked lies in the
  last non-empty state message, which is returned unchanged. In both, the history keeps
  its length and every message is either returned as it was or with its markers
  cleared.
\<close>

theorem getMessages_cache_marker:
  "(list_all markedAsBuilt ms \<longrightarrow>
      length (getMessages ms) = length ms \<and>
      length (markedBlocks (getMessages ms)) \<le> 1 \<and>
      markedBlocks (getMessages ms) =
        (if markedBlocks ms = [] then [] else [last (markedBlocks ms)]) \<and>
      (\<forall>i < length ms.
         getMessages ms ! i =
           (if Message.role (ms ! i) \<noteq> ''system'' \<and> laterMarked ms i
            then removeCacheControl (ms ! i) else ms ! i)) \<and>
      (\<forall>i < length ms.
         Message.role (ms ! i) \<noteq> ''system'' \<and> laterMarked ms i \<longrightarrow>
         filter (\<lambda>c. cacheControl c = Flag True) (Message.content (getMessages ms ! i)) = [])) \<and>
   (list_all markedAsBuilt_ix msx \<longrightarrow>
      length (getMessages_ix msx) = length msx \<and>
      length (markedBlocks (getMessages_ix msx)) \<le> 1 \<and>
      (\<forall>i < length msx.
         getMessages_ix msx ! i =
           (if stateMessage (msx ! i) \<and> laterState msx i
            then (msx ! i)\<lparr>Message.content := map setUndefined (Message.content (msx ! i))\<rparr>
            else msx ! i)) \<and>
      (\<forall>i < length msx.
         list_ex (\<lambda>c. cacheControl c = Flag True) (Message.content (getMessages_ix msx ! i)) \<longrightarrow>
         stateMessage (msx ! i) \<and> \<not> laterState msx i \<and> getMessages_ix msx ! i = msx ! i))"
proof (intro conjI impI)
  assume inv: "list_all markedAsBuilt ms"
  show "length (getMessages ms) = length ms"
    by (simp add: getMessages_def)
  from markedBlocks_sweepCache [OF inv]
  show last: "markedBlocks (getMessages ms) =
      (if markedBlocks ms = [] then [] else [last (markedBlocks ms)])"
    by (simp add: getMessages_def)
  then show "length (markedBlocks (getMessages ms)) \<le> 1"
    by simp
  show nth: "\<forall>i < length ms.
      getMessages ms ! i =
        (if Message.role (ms ! i) \<noteq> ''system'' \<and> laterMarked ms i
         then removeCacheControl (ms ! i) else ms ! i)"
    by (simp add: getMessages_def sweepCache_nth)
  show "\<forall>i < length ms.
      Message.role (ms ! i) \<noteq> ''system'' \<and> laterMarked ms i \<longrightarrow>
      filter (\<lambda>c. cacheControl c = Flag True) (Message.content (getMessages ms ! i)) = []"
  proof (intro allI impI)
    fix i assume i: "i < length ms"
      and later: "Message.role (ms ! i) \<noteq> ''system'' \<and> laterMarked ms i"
    from inv i have "markedAsBuilt (ms ! i)"
      by (simp add: list_all_length)
    then have "filter (\<lambda>c. cacheControl c = Flag True)
        (Message.content (removeCacheControl (ms ! i))) = []"
      by (rule marked_removeCacheControl)
    with nth i later show
      "filter (\<lambda>c. cacheControl c = Flag True) (Message.content (getMessages ms ! i)) = []"
      by simp
  qed
next
  assume inv: "list_all markedAsBuilt_ix msx"
  show "length (getMessages_ix msx) = length msx"
    by (simp add: getMessages_ix_def)
  from markedBlocks_sweepState [OF inv]
  show "length (markedBlocks (getMessages_ix msx)) \<le> 1"
    by (simp add: getMessages_ix_def)
  show nth: "\<forall>i < length msx.
      getMessages_ix msx ! i =
        (if stateMessage (msx ! i) \<and> laterState msx i
         then (msx ! i)\<lparr>Message.content := map setUndefined (Message.content (msx ! i))\<rparr>
         else msx ! i)"
    by (simp add: getMessages_ix_def sweepState_nth)
  show "\<forall>i < length msx.
      list_ex (\<lambda>c. cacheControl c = Flag True) (Message.content (getMessages_ix msx ! i)) \<longrightarrow>
      stateMessage (msx ! i) \<and> \<not> laterState msx i \<and> getMessages_ix msx ! i = msx ! i"
  proof (intro allI impI)
    fix i assume i: "i < length msx"
      and mk: "list_ex (\<lambda>c. cacheControl c = Flag True) (Message.content (getMessages_ix msx ! i))"
    from inv i have built: "markedAsBuilt_ix (msx ! i)"
      by (simp add: list_all_length)
    have cleared: "\<not> list_ex (\<lambda>c. cacheControl c = Flag True)
        (Message.content ((msx ! i)\<lparr>Message.content := map setUndefined (Message.content (msx ! i))\<rparr>))"
      by (simp add: list_ex_iff marked_setUndefined)
    from nth i mk cleared have same: "getMessages_ix msx ! i = msx ! i"
      and no: "\<not> (stateMessage (msx ! i) \<and> laterState msx i)"
      by (auto split: if_splits)
    from same mk built have "stateMessage (msx ! i)"
      by (simp add: markedAsBuilt_ix_def)
    with same no show "stateMessage (msx ! i) \<and> \<not> laterState msx i \<and>
        getMessages_ix msx ! i = msx ! i"
      by simp
  qed
qed

theorem getMessages_cache_marker_witness:
  "markedBlocks (getMessages
      [textMsg ''system'' [(''s'', Flag True)],
       textMsg ''user'' [(''a'', Flag True), (''b'', Undefined), (''c'', Absent)],
       textMsg ''user'' [(''d'', Flag True)]]) = [TextContent ''d'' (Flag True)] \<and>
   length (markedBlocks (getMessages_ix
      [\<lparr>Message.role = ''user'',
        Message.content = [ImageContent (Some ''AAAA'') None (Flag True),
                           TextContent ''<state_step>'' Absent],
        Message.name = None, toolCallId = None, isStateMessage = Some True\<rparr>,
       \<lparr>Message.role = ''user'',
        Message.content = [ImageContent (Some ''BBBB'') None (Flag True),
                           TextContent ''<state_step>'' Absent],
        Message.name = None, toolCallId = None, isStateMessage = Some True\<rparr>])) \<le> 1"
proof -
  let ?ms = "[textMsg ''system'' [(''s'', Flag True)],
              textMsg ''user'' [(''a'', Flag True), (''b'', Undefined), (''c'', Absent)],
              textMsg ''user'' [(''d'', Flag True)]]"
  let ?msx = "[\<lparr>Message.role = ''user'',
        Message.content = [ImageContent (Some ''AAAA'') None (Flag True),
                           TextContent ''<state_step>'' Absent],
        Message.name = None, toolCallId = None, isStateMessage = Some True\<rparr>,
       \<lparr>Message.role = ''user'',
        Message.content = [ImageContent (Some ''BBBB'') None (Flag True),
                           TextContent ''<state_step>'' Absent],
        Message.name = None, toolCallId = None, isStateMessage = Some True\<rparr>]"
  have 1: "list_all markedAsBuilt ?ms"
    by (simp add: markedAsBuilt_def textMsg_def)
  have 2: "list_all markedAsBuilt_ix ?msx"
    by (simp add: markedAsBuilt_ix_def stateMessage_def)
  have 3: "markedBlocks ?ms = [TextContent ''a'' (Flag True), TextContent ''d'' (Flag True)]"
    by (simp add: markedBlocks_def textMsg_def)
  from getMessages_cache_marker [of ?ms ?msx] 1 2
  have "markedBlocks (getMessages ?ms) =
      (if markedBlocks ?ms = [] then [] else [last (markedBlocks ?ms)])"
    and "length (markedBlocks (getMessages_ix ?msx)) \<le> 1"
    by blast+
  with 3 show ?thesis
    by simp
qed

subsection \<open>The dispatcher\<close>

text \<open>
  For a name that is not registered but is found on \<^verbatim>\<open>Object.prototype\<close>, the
  dispatcher of the second implementation takes the path of a failing handler.
\<close>

lemma executeAction_inherited_name:
  "lookupAction registry (ActionModel.name model) = Inherited \<Longrightarrow>
   executeAction registry model handle =
     Inr \<lparr>isDone = False, ActionResult.content = None,
          error = Some (''Error executing action '' @ ActionModel.name model @
                   '': registeredAction.function is not a function''),
          giveControl = False\<rparr>"
  by (simp add: executeAction_def callHandler_def tryCatch_def newActionResult_def)

text \<open>
  C1, as stated, fails for the controller of the first implementation, which raises by
  design: an unknown name and a handler that throws both leave \<^const>\<open>executeAction_ix\<close>
  as exceptions.
\<close>

theorem executeAction_ix_throws_counterexample:
  "executeAction_ix Map.empty \<lparr>ActionModel.name = ''fly'', params = None\<rparr> None
     = Inl (ErrorObject ''Action fly not found'') \<and>
   executeAction_ix [''click'' \<mapsto> failingAction] \<lparr>ActionModel.name = ''click'', params = None\<rparr> None
     = Inl (ErrorObject ''Error executing action click: boom'')"
  by (simp add: executeAction_ix_def tryCatch_def failingAction_def)

text \<open>
  C1, amended. The dispatcher of the second implementation, \<^const>\<open>executeAction\<close>,
  always returns an \<^verbatim>\<open>ActionResult\<close> and never throws: for every name that its lookup
  in the registry does not find the result carries the error \<^verbatim>\<open>Action <name> not found\<close>,
  and for every registered action whose handler throws the result carries
  \<^verbatim>\<open>Error executing action <name>: <message>\<close>; in both cases \<^verbatim>\<open>isDone\<close> and
  \<^verbatim>\<open>giveControl\<close> are false and there is no content. The dispatcher of the first
  implementation, \<^const>\<open>executeAction_ix\<close>, throws \<^verbatim>\<open>Action <name> not found\<close> for
  every name without a registered handler, throws
  \<^verbatim>\<open>Error executing action <name>: <message>\<close> for every registered action whose
  handler throws or whose result the schema rejects, and returns the validated result
  otherwise.
\<close>

theorem executeAction_never_throws:
  "(\<exists>r. executeAction registry model handle = Inr r \<and>
      (lookupAction registry (ActionModel.name model) = NotFound \<longrightarrow>
         r = \<lparr>isDone = False, ActionResult.content = None,
              error = Some (''Action '' @ ActionModel.name model @ '' not found''),
              giveControl = False\<rparr>) \<and>
      (\<forall>a e. registry (ActionModel.name model) = Some a \<and>
             function' a (kwargsOf (params model) (browserContext a) handle) = Throws e \<longrightarrow>
         r = \<lparr>isDone = False, ActionResult.content = None,
              error = Some (''Error executing action '' @ ActionModel.name model @ '': '' @
                       messageOf e),
              giveControl = False\<rparr>)) \<and>
   (registryx (ActionModel.name modelx) = None \<longrightarrow>
      executeAction_ix registryx modelx handlex =
        Inl (ErrorObject (''Action '' @ ActionModel.name modelx @ '' not found''))) \<and>
   (\<forall>a e. registryx (ActionModel.name modelx) = Some a \<and>
          function' a (kwargsOf (params modelx) (browserContext a) handlex) = Throws e \<longrightarrow>
      executeAction_ix registryx modelx handlex =
        Inl (ErrorObject (''Error executing action '' @ ActionModel.name modelx @ '': '' @
               messageOf e))) \<and>
   (\<forall>a v e. registryx (ActionModel.name modelx) = Some a \<and>
          function' a (kwargsOf (params modelx) (browserContext a) handlex) = Returns v \<and>
          parseActionResult v = Inl e \<longrightarrow>
      executeAction_ix registryx modelx handlex =
        Inl (ErrorObject (''Error executing action '' @ ActionModel.name modelx @ '': '' @
               messageOf e))) \<and>
   (\<forall>a v r. registryx (ActionModel.name modelx) = Some a \<and>
          function' a (kwargsOf (params modelx) (browserContext a) handlex) = Returns v \<and>
          parseActionResult v = Inr r \<longrightarrow>
      executeAction_ix registryx modelx handlex = Inr r)"
proof (intro conjI)
  show "\<exists>r. executeAction registry model handle = Inr r \<and>
      (lookupAction registry (ActionModel.name model) = NotFound \<longrightarrow>
         r = \<lparr>isDone = False, ActionResult.content = None,
              error = Some (''Action '' @ ActionModel.name model @ '' not found''),
              giveControl = False\<rparr>) \<and>
      (\<forall>a e. registry (ActionModel.name model) = Some a \<and>
             function' a (kwargsOf (params model) (browserContext a) handle) = Throws e \<longrightarrow>
         r = \<lparr>isDone = False, ActionResult.content = None,
              error = Some (''Error executing action '' @ ActionModel.name model @ '': '' @
                       messageOf e),
              giveControl = False\<rparr>)"
  proof (cases "lookupAction registry (ActionModel.name model)")
    case NotFound
    then have "registry (ActionModel.name model) = None"
      by (auto simp: lookupAction_def split: option.splits if_splits)
    with NotFound show ?thesis
      by (simp add: executeAction_def newActionResult_def)
  next
    case (Registered a)
    then have a: "registry (ActionModel.name model) = Some a"
      by (auto simp: lookupAction_def split: option.splits if_splits)
    show ?thesis
    proof (cases "function' a (kwargsOf (params model) (browserContext a) handle)")
      case (Throws e)
      with Registered a show ?thesis
        by (simp add: executeAction_def callHandler_def tryCatch_def newActionResult_def)
    next
      case (Returns v)
      with Registered a show ?thesis
        by (simp add: executeAction_def callHandler_def tryCatch_def)
    qed
  next
    case Inherited
    then have "registry (ActionModel.name model) = None"
      by (auto simp: lookupAction_def split: option.splits if_splits)
    with Inherited show ?thesis
      by (simp add: executeAction_def callHandler_def tryCatch_def newActionResult_def)
  qed
next
  show "registryx (ActionModel.name modelx) = None \<longrightarrow>
      executeAction_ix registryx modelx handlex =
        Inl (ErrorObject (''Action '' @ ActionModel.name modelx @ '' not found''))"
    by (simp add: executeAction_ix_def)
next
  show "\<forall>a e. registryx (ActionModel.name modelx) = Some a \<and>
          function' a (kwargsOf (params modelx) (browserContext a) handlex) = Throws e \<longrightarrow>
      executeAction_ix registryx modelx handlex =
        Inl (ErrorObject (''Error executing action '' @ ActionModel.name modelx @ '': '' @
               messageOf e))"
    by (simp add: executeAction_ix_def tryCatch_def)
next
  show "\<forall>a v e. registryx (ActionModel.name modelx) = Some a \<and>
          function' a (kwargsOf (params modelx) (browserContext a) handlex) = Returns v \<and>
          parseActionResult v = Inl e \<longrightarrow>
      executeAction_ix registryx modelx handlex =
        Inl (ErrorObject (''Error executing action '' @ ActionModel.name modelx @ '': '' @
               messageOf e))"
    by (simp add: executeAction_ix_def tryCatch_def)
next
  show "\<forall>a v r. registryx (ActionModel.name modelx) = Some a \<and>
          function' a (kwargsOf (params modelx) (browserContext a) handlex) = Returns v \<and>
          parseActionResult v = Inr r \<longrightarrow>
      executeAction_ix registryx modelx handlex = Inr r"
    by (simp add: executeAction_ix_def tryCatch_def)
qed

theorem executeAction_never_throws_witness:
  "executeAction Map.empty \<lparr>ActionModel.name = ''fly'', params = None\<rparr> None
     = Inr \<lparr>isDone = False, ActionResult.content = None,
           error = Some ''Action fly not found'', giveControl = False\<rparr> \<and>
   executeAction [''click'' \<mapsto> failingAction] \<lparr>ActionModel.name = ''click'', params = None\<rparr>
       (Some BrowserHandle)
     = Inr \<lparr>isDone = False, ActionResult.content = None,
           error = Some ''Error executing action click: boom'', giveControl = False\<rparr> \<and>
   executeAction_ix Map.empty \<lparr>ActionModel.name = ''fly'', params = None\<rparr> None
     = Inl (ErrorObject ''Action fly not found'') \<and>
   executeAction_ix [''click'' \<mapsto> failingAction] \<lparr>ActionModel.name = ''click'', params = None\<rparr>
       (Some BrowserHandle)
     = Inl (ErrorObject ''Error executing action click: boom'')"
proof -
  let ?fly = "\<lparr>ActionModel.name = ''fly'', params = None\<rparr>"
  let ?click = "\<lparr>ActionModel.name = ''click'', params = None\<rparr>"
  have 1: "lookupAction Map.empty (ActionModel.name ?fly) = NotFound"
    by (simp add: lookupAction_def objectPrototypeNames_def)
  have 2: "Map.empty (ActionModel.name ?fly) = (None :: Action option)"
    by simp
  have 3: "[''click'' \<mapsto> failingAction] (ActionModel.name ?click) = Some failingAction \<and>
      function' failingAction (kwargsOf (params ?click) (browserContext failingAction)
        (Some BrowserHandle)) = Throws (ErrorObject ''boom'')"
    by (simp add: failingAction_def)
  from executeAction_never_throws [of Map.empty ?fly None Map.empty ?fly None] 1 2
  have a: "executeAction Map.empty ?fly None
     = Inr \<lparr>isDone = False, ActionResult.content = None,
           error = Some ''Action fly not found'', giveControl = False\<rparr>"
    and b: "executeAction_ix Map.empty ?fly None = Inl (ErrorObject ''Action fly not found'')"
    by auto
  from executeAction_never_throws
         [of "[''click'' \<mapsto> failingAction]" ?click "Some BrowserHandle"
             "[''click'' \<mapsto> failingAction]" ?click "Some BrowserHandle"] 3
  have c: "executeAction [''click'' \<mapsto> failingAction] ?click (Some BrowserHandle)
     = Inr \<lparr>isDone = False, ActionResult.content = None,
           error = Some ''Error executing action click: boom'', giveControl = False\<rparr>"
    and d: "executeAction_ix [''click'' \<mapsto> failingAction] ?click (Some BrowserHandle)
     = Inl (ErrorObject ''Error executing action click: boom'')"
    by auto
  from a b c d show ?thesis
    by (intro conjI)
qed

subsection \<open>The streaming run and its time limit\<close>

lemma firstExceeded_step:
  assumes "firstExceeded env start k" and "start < k"
  shows "\<not> exceeds (events env start)"
    and "\<exists>r s. outcome (events env start) = Inr (r, s) \<and> \<not> isDone r"
    and "firstExceeded env (Suc start) k"
  using assms by (auto simp: firstExceeded_def)

lemma firstExceeded_here: "firstExceeded env k k \<Longrightarrow> exceeds (events env k)"
  by (simp add: firstExceeded_def)

lemma firstExceeded_ix_step:
  assumes "firstExceeded_ix env start k" and "start < k"
  shows "\<not> exceeds (events env start)"
    and "\<forall>r s. outcome (events env start) = Inr (r, s) \<longrightarrow> \<not> isDone r"
    and "firstExceeded_ix env (Suc start) k"
proof -
  from assms have here: "start \<le> start \<and> start < k"
    by simp
  with assms(1) show "\<not> exceeds (events env start)"
    unfolding firstExceeded_ix_def by blast
  from assms(1) here show "\<forall>r s. outcome (events env start) = Inr (r, s) \<longrightarrow> \<not> isDone r"
    unfolding firstExceeded_ix_def by blast
  have "\<forall>j. Suc start \<le> j \<and> j < k \<longrightarrow>
        \<not> exceeds (events env j) \<and>
        (\<forall>r s. outcome (events env j) = Inr (r, s) \<longrightarrow> \<not> isDone r)"
  proof (intro allI impI)
    fix j assume "Suc start \<le> j \<and> j < k"
    then have "start \<le> j \<and> j < k"
      by simp
    with assms(1) show "\<not> exceeds (events env j) \<and>
        (\<forall>r s. outcome (events env j) = Inr (r, s) \<longrightarrow> \<not> isDone r)"
      unfolding firstExceeded_ix_def by blast
  qed
  moreover from assms have "Suc start \<le> k" "exceeds (events env k)"
    by (simp_all add: firstExceeded_ix_def)
  ultimately show "firstExceeded_ix env (Suc start) k"
    unfolding firstExceeded_ix_def by blast
qed

lemma streamLoop_ix_timeout:
  assumes "firstExceeded_ix env start k" and "k < maxS" and "ms \<noteq> 0"
  shows "\<exists>pre res.
           streamLoop_ix env maxS (Some ms) start ar False =
             (pre @ [TimeoutChunk
                       \<lparr>isDone = False, ActionResult.content = None,
                        error = Some (''Step timed out after '' @ showNat ms @ ''ms''),
                        giveControl = False\<rparr> ''Execution timed out''], res, k) \<and>
           length pre = k - start \<and> (\<forall>c \<in> set pre. isStepChunk c \<or> isStepChunkError c)"
  using assms
proof (induction "k - start" arbitrary: start ar)
  case 0
  then have "start = k"
    by (simp add: firstExceeded_ix_def)
  with 0 have "exceeds (events env start)" "start < maxS"
    by (simp_all add: firstExceeded_ix_def)
  with \<open>ms \<noteq> 0\<close> \<open>start = k\<close> show ?case
    by (subst streamLoop_ix.simps) (simp add: executeStepWithTimeout_def)
next
  case (Suc d)
  then have lt: "start < k"
    by simp
  from firstExceeded_ix_step [OF Suc.prems(1) lt]
  have ev: "\<not> exceeds (events env start)"
      "\<forall>r s. outcome (events env start) = Inr (r, s) \<longrightarrow> \<not> isDone r"
    and nxt: "firstExceeded_ix env (Suc start) k"
    by blast+
  from Suc.hyps(2) have d: "d = k - Suc start"
    by simp
  from lt Suc.prems(2) have sm: "start < maxS"
    by simp
  show ?case
  proof (cases "outcome (events env start)")
    case (Inl e)
    from Suc.hyps(1) [OF d nxt Suc.prems(2) Suc.prems(3), of ar]
    obtain pre res where rec: "streamLoop_ix env maxS (Some ms) (Suc start) ar False =
             (pre @ [TimeoutChunk
                       \<lparr>isDone = False, ActionResult.content = None,
                        error = Some (''Step timed out after '' @ showNat ms @ ''ms''),
                        giveControl = False\<rparr> ''Execution timed out''], res, k)"
      and pre: "length pre = k - Suc start" "\<forall>c \<in> set pre. isStepChunk c \<or> isStepChunkError c"
      by blast
    let ?c = "StepChunkError (''Error during step '' @ showNat start @ '': '' @ messageOf e)"
    from sm ev Inl rec \<open>ms \<noteq> 0\<close>
    have "streamLoop_ix env maxS (Some ms) start ar False =
      ((?c # pre) @ [TimeoutChunk
                       \<lparr>isDone = False, ActionResult.content = None,
                        error = Some (''Step timed out after '' @ showNat ms @ ''ms''),
                        giveControl = False\<rparr> ''Execution timed out''], res, k)"
      by (subst streamLoop_ix.simps) (simp add: executeStepWithTimeout_def)
    moreover from pre lt have "length (?c # pre) = k - start"
        "\<forall>c \<in> set (?c # pre). isStepChunk c \<or> isStepChunkError c"
      by auto
    ultimately show ?thesis
      by blast
  next
    case (Inr rs)
    obtain r s where rs: "rs = (r, s)"
      by (cases rs)
    with Inr ev(2) have nd: "\<not> isDone r"
      by simp
    from Suc.hyps(1) [OF d nxt Suc.prems(2) Suc.prems(3), of "Some r"]
    obtain pre res where rec: "streamLoop_ix env maxS (Some ms) (Suc start) (Some r) False =
             (pre @ [TimeoutChunk
                       \<lparr>isDone = False, ActionResult.content = None,
                        error = Some (''Step timed out after '' @ showNat ms @ ''ms''),
                        giveControl = False\<rparr> ''Execution timed out''], res, k)"
      and pre: "length pre = k - Suc start" "\<forall>c \<in> set pre. isStepChunk c \<or> isStepChunkError c"
      by blast
    from sm ev(1) Inr rs nd rec \<open>ms \<noteq> 0\<close>
    have "streamLoop_ix env maxS (Some ms) start ar False =
      ((StepChunk r s # pre) @ [TimeoutChunk
                       \<lparr>isDone = False, ActionResult.content = None,
                        error = Some (''Step timed out after '' @ showNat ms @ ''ms''),
                        giveControl = False\<rparr> ''Execution timed out''], res, k)"
      by (subst streamLoop_ix.simps) (simp add: executeStepWithTimeout_def)
    moreover from pre lt have "length (StepChunk r s # pre) = k - start"
        "\<forall>c \<in> set (StepChunk r s # pre). isStepChunk c \<or> isStepChunkError c"
      by auto
    ultimately show ?thesis
      by blast
  qed
qed

lemma streamLoop_v_timeout:
  assumes "firstExceeded env start k" and "k < maxS"
    and "outcome (events env k) = Inr (rk, sk)"
  shows "\<exists>pre.
           streamLoop_v env maxS (Some ms) start ar False =
             (pre @ [TimeoutChunk rk sk], Some rk, Suc k, ByReturn) \<and>
           length pre = k - start \<and> (\<forall>c \<in> set pre. isStepChunk c)"
  using assms
proof (induction "k - start" arbitrary: start ar)
  case 0
  then have "start = k"
    by (simp add: firstExceeded_def)
  with 0 have "exceeds (events env start)" "start < maxS" "outcome (events env start) = Inr (rk, sk)"
    by (simp_all add: firstExceeded_here)
  with \<open>start = k\<close> show ?case
    by (subst streamLoop_v.simps) simp
next
  case (Suc d)
  then have lt: "start < k"
    by simp
  from firstExceeded_step [OF Suc.prems(1) lt]
  obtain r s where ev: "\<not> exceeds (events env start)" "outcome (events env start) = Inr (r, s)"
      "\<not> isDone r" and nxt: "firstExceeded env (Suc start) k"
    by blast
  from Suc.hyps(2) have d: "d = k - Suc start"
    by simp
  from Suc.hyps(1) [OF d nxt Suc.prems(2) Suc.prems(3), of "Some r"]
  obtain pre where rec: "streamLoop_v env maxS (Some ms) (Suc start) (Some r) False =
             (pre @ [TimeoutChunk rk sk], Some rk, Suc k, ByReturn)"
      and pre: "length pre = k - Suc start" "\<forall>c \<in> set pre. isStepChunk c"
    by blast
  from lt Suc.prems(2) have "start < maxS"
    by simp
  with ev rec
  have "streamLoop_v env maxS (Some ms) start ar False =
      ((StepChunk r s # pre) @ [TimeoutChunk rk sk], Some rk, Suc k, ByReturn)"
    by (subst streamLoop_v.simps) simp
  moreover from pre lt have "length (StepChunk r s # pre) = k - start"
      "\<forall>c \<in> set (StepChunk r s # pre). isStepChunk c"
    by auto
  ultimately show ?case
    by blast
qed




subsection \<open>Rollback of the state message when the model call fails\<close>

lemma sweepCache_append_plain:
  assumes "\<not> hasCacheControl s"
  shows "sweepCache (h @ [s]) = (fst (sweepCache h), snd (sweepCache h) @ [s])"
  using assms by (induction h) (auto simp: Let_def split: prod.splits)

lemma getMessages_append_plain:
  "\<not> hasCacheControl s \<Longrightarrow> getMessages (h @ [s]) = getMessages h @ [s]"
  by (simp add: getMessages_def sweepCache_append_plain)

lemma getMessages_addCurrentStateMessage:
  "getMessages (addCurrentStateMessage env state previousResult followUp h) =
     addCurrentStateMessage env state previousResult followUp (getMessages h)"
  unfolding addCurrentStateMessage_def
  by (rule getMessages_append_plain) (simp add: hasCacheControl_def)

lemma removeLastMessage_snoc: "h \<noteq> [] \<Longrightarrow> removeLastMessage (h @ [s]) = h"
  by (cases h) (simp_all add: removeLastMessage_def)

lemma getMessages_eq_Nil [simp]: "getMessages h = [] \<longleftrightarrow> h = []"
  using length_sweepCache [of h] by (auto simp: getMessages_def simp del: length_sweepCache)

text \<open>
  The first step of a fresh run of the second implementation is given no previous
  result, so it appends no state message; when the model call fails, the \<^verbatim>\<open>catch\<close> block
  still removes the last message, which is the user prompt.
\<close>

lemma step_v_first_step_failure:
  "step_v failingModel 0 None
     [textMsg ''system'' [(''instructions'', Flag True)], textMsg ''user'' [(''task'', Absent)]]
   = (Inl (ErrorObject ''Could not parse response''),
      [textMsg ''system'' [(''instructions'', Flag True)]])"
  by (simp add: step_v_def failingModel_def getMessages_def removeLastMessage_def textMsg_def
        hasCacheControl_def)

text \<open>
  C4, as stated, fails. The step of the first implementation has no rollback: after a
  failed model call the state message it appended is still in the history. In the
  second implementation the history after a failed step differs from the one before the
  step where \<^const>\<open>getMessages\<close>, called before the model, has cleared a cache marker.
\<close>

theorem step_failure_history_counterexample:
  "length (snd (step_ix failingModel (Some clicked)
      [textMsg ''system'' [(''instructions'', Absent)], textMsg ''user'' [(''task'', Absent)]])) = 3 \<and>
   snd (step_v failingModel 2 (Some clicked)
      [textMsg ''user'' [(''task'', Flag True)], textMsg ''user'' [(''state'', Flag True)]])
     = [textMsg ''user'' [(''task'', Flag False)], textMsg ''user'' [(''state'', Flag True)]]"
  by (simp add: step_ix_def step_v_def failingModel_def getMessages_ix_def getMessages_def
        addCurrentStateMessage_ix_def addCurrentStateMessage_def removeLastMessage_def
        textMsg_def hasCacheControl_def removeCacheControl_def stateMessage_def)

text \<open>
  C4, amended. In the second implementation, when the step is given a previous result
  (so that it appends a state message) and the history is not empty, a failure of the
  model call or of the parsing of its output leaves the function as that exception, and
  the history afterwards is the history from before the step as \<^const>\<open>getMessages\<close>
  leaves it: the state message is gone, the messages are those from before the step, in
  the same order, with the cache markers cleared as \<^const>\<open>getMessages\<close> does. In the
  first implementation, for every history and every previous result, the same failure
  leaves the function as that exception and leaves the appended state message in the
  history, which is one message longer than before the step.
\<close>

theorem step_failure_rollback:
  "(updateState env = Inr state \<and> messages \<noteq> [] \<and>
    generateAction env
      (getMessages (addCurrentStateMessage env state (Some r) None messages)) = Inl e \<longrightarrow>
      step_v env n (Some r) messages = (Inl e, getMessages messages) \<and>
      length (getMessages messages) = length messages) \<and>
   (updateState envx = Inr statex \<and>
    generateAction envx
      (getMessages_ix (addCurrentStateMessage_ix envx statex prev messagesx)) = Inl e' \<longrightarrow>
      step_ix envx prev messagesx =
        (Inl e', getMessages_ix (addCurrentStateMessage_ix envx statex prev messagesx)) \<and>
      length (getMessages_ix (addCurrentStateMessage_ix envx statex prev messagesx))
        = length messagesx + 1)"
proof (intro conjI impI)
  assume v: "updateState env = Inr state \<and> messages \<noteq> [] \<and>
    generateAction env
      (getMessages (addCurrentStateMessage env state (Some r) None messages)) = Inl e"
  then have "removeLastMessage (getMessages (addCurrentStateMessage env state (Some r) None messages))
      = getMessages messages"
    unfolding getMessages_addCurrentStateMessage
    by (simp add: addCurrentStateMessage_def removeLastMessage_snoc)
  with v show "step_v env n (Some r) messages = (Inl e, getMessages messages)"
    by (simp add: step_v_def Let_def)
next
  show "length (getMessages messages) = length messages"
    by (simp add: getMessages_def)
next
  assume "updateState envx = Inr statex \<and>
    generateAction envx
      (getMessages_ix (addCurrentStateMessage_ix envx statex prev messagesx)) = Inl e'"
  then show "step_ix envx prev messagesx =
      (Inl e', getMessages_ix (addCurrentStateMessage_ix envx statex prev messagesx))"
    by (simp add: step_ix_def Let_def)
next
  show "length (getMessages_ix (addCurrentStateMessage_ix envx statex prev messagesx))
      = length messagesx + 1"
    by (simp add: getMessages_ix_def addCurrentStateMessage_ix_def)
qed

theorem step_failure_rollback_witness:
  "step_v failingModel 1 (Some clicked)
     [textMsg ''system'' [(''instructions'', Flag True)], textMsg ''user'' [(''task'', Flag True)]]
   = (Inl (ErrorObject ''Could not parse response''),
      [textMsg ''system'' [(''instructions'', Flag True)], textMsg ''user'' [(''task'', Flag True)]]) \<and>
   fst (step_ix failingModel None []) = Inl (ErrorObject ''Could not parse response'') \<and>
   length (snd (step_ix failingModel None [])) = 1"
proof -
  let ?h = "[textMsg ''system'' [(''instructions'', Flag True)], textMsg ''user'' [(''task'', Flag True)]]"
  let ?state = "\<lparr>url = ''about:blank'', screenshot = Some ''AAAA'',
                  screenshotWithHighlights = Some ''BBBB''\<rparr>"
  let ?e = "ErrorObject ''Could not parse response''"
  have 1: "updateState failingModel = Inr ?state \<and> ?h \<noteq> [] \<and>
    generateAction failingModel
      (getMessages (addCurrentStateMessage failingModel ?state (Some clicked) None ?h)) = Inl ?e"
    by (simp add: failingModel_def)
  have 2: "updateState failingModel = Inr ?state \<and>
    generateAction failingModel
      (getMessages_ix (addCurrentStateMessage_ix failingModel ?state None [])) = Inl ?e"
    by (simp add: failingModel_def)
  have 3: "getMessages ?h = ?h"
    by (simp add: getMessages_def textMsg_def hasCacheControl_def)
  from step_failure_rollback
         [of failingModel ?state ?h clicked ?e 1 failingModel ?state None "[]" ?e] 1 2
  have "step_v failingModel 1 (Some clicked) ?h = (Inl ?e, getMessages ?h)"
    and "step_ix failingModel None [] =
        (Inl ?e, getMessages_ix (addCurrentStateMessage_ix failingModel ?state None []))"
    and "length (getMessages_ix (addCurrentStateMessage_ix failingModel ?state None []))
        = length ([] :: Message list) + 1"
    by blast+
  with 3 show ?thesis
    by simp
qed

subsection \<open>Idempotence of the overlap filter\<close>

lemma set_insertSorted: "set (insertSorted cmp e es) = insert e (set es)"
  by (induction es) auto

lemma sorted_insertSorted:
  assumes total: "\<And>a b. R a b \<or> R b a" and trans: "\<And>a b c. R a b \<Longrightarrow> R b c \<Longrightarrow> R a c"
    and cmp: "\<And>a b. cmp a b \<le> 0 \<longleftrightarrow> R a b"
  shows "sorted_wrt R es \<Longrightarrow> sorted_wrt R (insertSorted cmp e es)"
proof (induction es)
  case Nil
  then show ?case by simp
next
  case (Cons f fs)
  show ?case
  proof (cases "cmp e f \<le> 0")
    case True
    then have "R e f" by (simp add: cmp)
    with Cons.prems trans have "\<forall>g \<in> set fs. R e g" by auto
    with True \<open>R e f\<close> Cons.prems show ?thesis by simp
  next
    case False
    then have "\<not> R e f" by (simp add: cmp)
    with total have "R f e" by blast
    with False Cons show ?thesis by (auto simp: set_insertSorted)
  qed
qed

lemma sorted_sortWith:
  assumes "\<And>a b. R a b \<or> R b a" and "\<And>a b c. R a b \<Longrightarrow> R b c \<Longrightarrow> R a c"
    and "\<And>a b. cmp a b \<le> 0 \<longleftrightarrow> R a b"
  shows "sorted_wrt R (sortWith cmp es)"
  unfolding sortWith_def
  by (induction es) (simp_all add: sorted_insertSorted [where R = R, OF assms])

lemma insertSorted_front:
  "(\<forall>f \<in> set fs. cmp e f \<le> 0) \<Longrightarrow> insertSorted cmp e fs = e # fs"
  by (cases fs) simp_all

lemma sortWith_sorted:
  "sorted_wrt (\<lambda>a b. cmp a b \<le> 0) es \<Longrightarrow> sortWith cmp es = es"
  unfolding sortWith_def
  by (induction es) (simp_all add: insertSorted_front)

lemma precedes_total: "precedes rectOf weightOf a b \<or> precedes rectOf weightOf b a"
  by (auto simp: precedes_def byAreaThenWeight_def Let_def)

lemma precedes_trans:
  "precedes rectOf weightOf a b \<Longrightarrow> precedes rectOf weightOf b c \<Longrightarrow> precedes rectOf weightOf a c"
  by (auto simp: precedes_def byAreaThenWeight_def Let_def split: if_splits)

lemma sorted_byAreaThenWeight:
  "sorted_wrt (precedes rectOf weightOf) (sortWith (byAreaThenWeight rectOf weightOf) es)"
proof (rule sorted_sortWith)
  fix a b c
  show "precedes rectOf weightOf a b \<or> precedes rectOf weightOf b a"
    by (rule precedes_total)
  show "precedes rectOf weightOf a b \<Longrightarrow> precedes rectOf weightOf b c \<Longrightarrow> precedes rectOf weightOf a c"
    by (rule precedes_trans)
  show "byAreaThenWeight rectOf weightOf a b \<le> 0 \<longleftrightarrow> precedes rectOf weightOf a b"
    by (simp add: precedes_def)
qed

lemma set_scanKept: "set (snd (scanKept rectOf thr cur kept)) \<subseteq> set kept"
  by (induction kept) (auto simp: Let_def split: prod.splits)

lemma sorted_wrt_scanKept:
  "sorted_wrt R kept \<Longrightarrow> sorted_wrt R (snd (scanKept rectOf thr cur kept))"
proof (induction kept)
  case Nil
  then show ?case by simp
next
  case (Cons ex older)
  then have older: "sorted_wrt R (snd (scanKept rectOf thr cur older))" and ex: "\<forall>e \<in> set older. R ex e"
    by simp_all
  from ex set_scanKept [of rectOf thr cur older]
  have "\<forall>e \<in> set (snd (scanKept rectOf thr cur older)). R ex e"
    by blast
  with older Cons.prems show ?case
    by (auto simp: Let_def split: prod.splits)
qed

lemma scanKept_compatible:
  "\<not> fst (scanKept rectOf thr cur kept) \<Longrightarrow>
   \<forall>e \<in> set (snd (scanKept rectOf thr cur kept)). compatible rectOf thr cur e"
  by (induction kept) (auto simp: Let_def compatible_def split: prod.splits if_splits)

lemma scanKept_all_compatible:
  "\<forall>e \<in> set kept. compatible rectOf thr cur e \<Longrightarrow> scanKept rectOf thr cur kept = (False, kept)"
  by (induction kept) (auto simp: compatible_def)

lemma keepEach_compatible:
  "sorted_wrt (compatible rectOf thr) kept \<Longrightarrow>
   sorted_wrt (compatible rectOf thr) (keepEach rectOf thr kept es)"
proof (induction es arbitrary: kept)
  case Nil
  then show ?case by simp
next
  case (Cons cur rest)
  obtain ov kept' where sk: "scanKept rectOf thr cur kept = (ov, kept')"
    by (cases "scanKept rectOf thr cur kept")
  from sorted_wrt_scanKept [OF Cons.prems, of rectOf thr cur] sk
  have k': "sorted_wrt (compatible rectOf thr) kept'"
    by simp
  show ?case
  proof (cases ov)
    case True
    with sk k' Cons.IH [of kept'] show ?thesis by simp
  next
    case False
    with scanKept_compatible [of rectOf thr cur kept] sk
    have "\<forall>e \<in> set kept'. compatible rectOf thr cur e"
      by simp
    with k' have "sorted_wrt (compatible rectOf thr) (cur # kept')"
      by simp
    with sk False Cons.IH [of "cur # kept'"] show ?thesis by simp
  qed
qed

lemma keepEach_sorted:
  assumes "sorted_wrt (\<lambda>a b. R b a) kept" and "sorted_wrt R es"
    and "\<forall>a \<in> set kept. \<forall>b \<in> set es. R a b"
  shows "sorted_wrt (\<lambda>a b. R b a) (keepEach rectOf thr kept es)"
  using assms
proof (induction es arbitrary: kept)
  case Nil
  then show ?case by simp
next
  case (Cons cur rest)
  obtain ov kept' where sk: "scanKept rectOf thr cur kept = (ov, kept')"
    by (cases "scanKept rectOf thr cur kept")
  from sorted_wrt_scanKept [OF Cons.prems(1), of rectOf thr cur] sk
  have k': "sorted_wrt (\<lambda>a b. R b a) kept'"
    by simp
  from set_scanKept [of rectOf thr cur kept] sk have sub: "set kept' \<subseteq> set kept"
    by simp
  from Cons.prems(2) have rest: "sorted_wrt R rest" and cur: "\<forall>b \<in> set rest. R cur b"
    by simp_all
  from sub Cons.prems(3) have below: "\<forall>a \<in> set kept'. \<forall>b \<in> set rest. R a b"
    and belowcur: "\<forall>a \<in> set kept'. R a cur"
    by auto
  show ?case
  proof (cases ov)
    case True
    with sk Cons.IH [OF k' rest below] show ?thesis by simp
  next
    case False
    from k' belowcur have 1: "sorted_wrt (\<lambda>a b. R b a) (cur # kept')"
      by simp
    from below cur have 2: "\<forall>a \<in> set (cur # kept'). \<forall>b \<in> set rest. R a b"
      by simp
    from sk False Cons.IH [OF 1 rest 2] show ?thesis by simp
  qed
qed

lemma keepEach_unchanged:
  "sorted_wrt (compatible rectOf thr) (rev es @ kept) \<Longrightarrow>
   keepEach rectOf thr kept es = rev es @ kept"
proof (induction es arbitrary: kept)
  case Nil
  then show ?case by simp
next
  case (Cons cur rest)
  then have all: "sorted_wrt (compatible rectOf thr) (rev rest @ cur # kept)"
    by simp
  then have "sorted_wrt (compatible rectOf thr) (cur # kept)"
    by (simp add: sorted_wrt_append)
  then have "\<forall>e \<in> set kept. compatible rectOf thr cur e"
    by simp
  then have "scanKept rectOf thr cur kept = (False, kept)"
    by (rule scanKept_all_compatible)
  with Cons.IH [OF all] show ?case by simp
qed

lemma finalFiltered_sorted:
  "sorted_wrt R es \<Longrightarrow> sorted_wrt R (finalFiltered rectOf thr es)"
  unfolding finalFiltered_def sorted_wrt_rev
  by (rule keepEach_sorted) simp_all

lemma finalFiltered_fixed:
  "finalFiltered rectOf thr (finalFiltered rectOf thr es) = finalFiltered rectOf thr es"
proof -
  have "sorted_wrt (compatible rectOf thr) (keepEach rectOf thr [] es)"
    by (rule keepEach_compatible) simp
  then have "keepEach rectOf thr [] (rev (keepEach rectOf thr [] es)) = keepEach rectOf thr [] es"
    using keepEach_unchanged [of rectOf thr "rev (keepEach rectOf thr [] es)" "[]"] by simp
  then show ?thesis
    by (simp add: finalFiltered_def)
qed

text \<open>
  C6, as stated, fails for the filter of the second implementation. With the default
  threshold, three elements \<open>A\<close> (10 by 10), \<open>B\<close> (10 by 7, reaching above \<open>A\<close>) and
  \<open>C\<close> (10 by 6, inside both, on another z-index) are filtered to \<open>B, C\<close>: \<open>C\<close>
  supersedes \<open>A\<close> and the loop stops before it compares \<open>C\<close> with \<open>B\<close>. Filtering
  \<open>B, C\<close> again removes \<open>C\<close>, which overlaps \<open>B\<close> too much.
\<close>

theorem filterOverlappingElements_v_counterexample:
  "filterOverlappingElements_v 0.7
     [element_v 0 0 10 10 1 0, element_v 0 (-1) 10 7 1 0, element_v 0 0 10 6 1 1]
     = [element_v 0 (-1) 10 7 1 0, element_v 0 0 10 6 1 1] \<and>
   filterOverlappingElements_v 0.7
     (filterOverlappingElements_v 0.7
        [element_v 0 0 10 10 1 0, element_v 0 (-1) 10 7 1 0, element_v 0 0 10 6 1 1])
     = [element_v 0 (-1) 10 7 1 0]"
proof -
  have 1: "filterOverlappingElements_v 0.7
     [element_v 0 0 10 10 1 0, element_v 0 (-1) 10 7 1 0, element_v 0 0 10 6 1 1]
     = [element_v 0 (-1) 10 7 1 0, element_v 0 0 10 6 1 1]"
    by (simp add: filterOverlappingElements_v_def filterWith_def sortWith_def
          byAreaThenWeight_v_def element_v_def edgesOf_def calculateIOU_def
          isFullyContained_v_def Let_def)
  have 2: "filterOverlappingElements_v 0.7
     [element_v 0 (-1) 10 7 1 0, element_v 0 0 10 6 1 1] = [element_v 0 (-1) 10 7 1 0]"
    by (simp add: filterOverlappingElements_v_def filterWith_def sortWith_def
          byAreaThenWeight_v_def element_v_def edgesOf_def calculateIOU_def
          isFullyContained_v_def Let_def)
  from 1 2 show ?thesis
    by simp
qed

text \<open>
  C6, amended: the overlap filter of the first implementation is idempotent. Applying
  \<^const>\<open>filterOverlappingElements\<close> to its own output returns that output, element for
  element: the second application removes nothing and changes no order.
\<close>

theorem filterOverlappingElements_idempotent:
  "filterOverlappingElements thr (filterOverlappingElements thr elements)
     = filterOverlappingElements thr elements"
proof (cases "filterOverlappingElements thr elements = []")
  case True
  then show ?thesis
    by (simp add: filterOverlappingElements_def)
next
  case False
  then have ne: "elements \<noteq> []"
    by (auto simp: filterOverlappingElements_def)
  let ?sorted = "sortWith (byAreaThenWeight InteractiveElement.rect InteractiveElement.weight) elements"
  let ?out = "finalFiltered InteractiveElement.rect thr ?sorted"
  from ne have out: "filterOverlappingElements thr elements = ?out"
    by (simp add: filterOverlappingElements_def)
  have "sorted_wrt (precedes InteractiveElement.rect InteractiveElement.weight) ?out"
    by (rule finalFiltered_sorted) (rule sorted_byAreaThenWeight)
  then have "sorted_wrt (\<lambda>a b. byAreaThenWeight InteractiveElement.rect InteractiveElement.weight a b \<le> 0)
      ?out"
    unfolding precedes_def .
  then have "sortWith (byAreaThenWeight InteractiveElement.rect InteractiveElement.weight) ?out = ?out"
    by (rule sortWith_sorted)
  with False out show ?thesis
    by (simp add: filterOverlappingElements_def finalFiltered_fixed)
qed

subsection \<open>Indices and inputs of the fusion\<close>

lemma newObjects_spec:
  "newObjects es st = (refs, st') \<Longrightarrow>
     refs = [nextObject st ..< nextObject st + length es] \<and>
     nextObject st' = nextObject st + length es \<and>
     arrays st' = arrays st \<and> nextArray st' = nextArray st \<and>
     (\<forall>r < nextObject st. objects st' r = objects st r) \<and>
     (\<forall>i < length es. objects st' (nextObject st + i) = es ! i)"
proof (induction es arbitrary: st refs st')
  case Nil
  then show ?case by simp
next
  case (Cons e es)
  let ?st1 = "st\<lparr>objects := (objects st)(nextObject st := e), nextObject := Suc (nextObject st)\<rparr>"
  obtain refs1 st1' where rec: "newObjects es ?st1 = (refs1, st1')"
    by (cases "newObjects es ?st1")
  with Cons.prems have refs: "refs = nextObject st # refs1" and st': "st' = st1'"
    by (simp_all add: Let_def)
  from Cons.IH [OF rec] have ih:
    "refs1 = [Suc (nextObject st) ..< Suc (nextObject st) + length es]"
    "nextObject st1' = Suc (nextObject st) + length es"
    "arrays st1' = arrays st" "nextArray st1' = nextArray st"
    "\<forall>r < Suc (nextObject st). objects st1' r = ((objects st)(nextObject st := e)) r"
    "\<forall>i < length es. objects st1' (Suc (nextObject st) + i) = es ! i"
    by simp_all
  have "\<forall>i < length (e # es). objects st1' (nextObject st + i) = (e # es) ! i"
  proof (intro allI impI)
    fix i assume "i < length (e # es)"
    then show "objects st1' (nextObject st + i) = (e # es) ! i"
      using ih(5,6) by (cases i) auto
  qed
  moreover have "[nextObject st ..< nextObject st + length (e # es)] = nextObject st # refs1"
    using ih(1) by (simp add: upt_rec)
  ultimately show ?case
    using refs st' ih by auto
qed

lemma sortElementsByPosition_st_spec:
  assumes "sortElementsByPosition_st arr st = (res, st')"
  shows "indicesOf st' res = map int [0 ..< length (arrays st' res)] \<and>
         res = nextArray st \<and>
         (\<forall>a. a \<noteq> arr \<and> a < nextArray st \<longrightarrow> arrays st' a = arrays st a) \<and>
         (\<forall>r < nextObject st. objects st' r = objects st r)"
proof (cases "arrays st arr = []")
  case True
  with assms show ?thesis
    by (auto simp: sortElementsByPosition_st_def newArray_def indicesOf_def)
next
  case False
  let ?st1 = "sortArray byPosition arr st"
  let ?es = "map (\<lambda>(i, a). (objects ?st1 a)\<lparr>InteractiveElement.index := int i\<rparr>)
               (enumerate 0 (arrays ?st1 arr))"
  obtain refs st2 where no: "newObjects ?es ?st1 = (refs, st2)"
    by (cases "newObjects ?es ?st1")
  from newObjects_spec [OF no] have sp:
    "refs = [nextObject ?st1 ..< nextObject ?st1 + length ?es]"
    "\<forall>i < length ?es. objects st2 (nextObject ?st1 + i) = ?es ! i"
    "nextArray st2 = nextArray st" "arrays st2 = arrays ?st1"
    "\<forall>r < nextObject st. objects st2 r = objects st r"
    by (simp_all add: sortArray_def)
  from assms False no have res: "res = nextArray st2"
    and st': "st' = st2\<lparr>arrays := (arrays st2)(nextArray st2 := refs), nextArray := Suc (nextArray st2)\<rparr>"
    by (auto simp: sortElementsByPosition_st_def newArray_def Let_def)
  have len: "length refs = length ?es"
    using sp(1) by simp
  have "indicesOf st' res = map (\<lambda>r. InteractiveElement.index (objects st2 r)) refs"
    using res st' by (simp add: indicesOf_def)
  also have "\<dots> = map int [0 ..< length refs]"
  proof (rule nth_equalityI)
    show "length (map (\<lambda>r. InteractiveElement.index (objects st2 r)) refs) = length (map int [0 ..< length refs])"
      by simp
  next
    fix i assume "i < length (map (\<lambda>r. InteractiveElement.index (objects st2 r)) refs)"
    then have i: "i < length refs" by simp
    with len have i': "i < length ?es" by simp
    from i sp(1) have "refs ! i = nextObject ?st1 + i"
      by simp
    with sp(2) i' have "objects st2 (refs ! i) = ?es ! i"
      by simp
    also from i' have "\<dots> = (objects ?st1 (arrays ?st1 arr ! i))\<lparr>InteractiveElement.index := int i\<rparr>"
      by (simp add: nth_enumerate_eq)
    finally show "map (\<lambda>r. InteractiveElement.index (objects st2 r)) refs ! i = map int [0 ..< length refs] ! i"
      using i by simp
  qed
  finally have 1: "indicesOf st' res = map int [0 ..< length (arrays st' res)]"
    using res st' by simp
  from res sp(3) have 2: "res = nextArray st"
    by simp
  from st' sp(3,4) have 3: "\<forall>a. a \<noteq> arr \<and> a < nextArray st \<longrightarrow> arrays st' a = arrays st a"
    by (auto simp: sortArray_def)
  from st' sp(5) have 4: "\<forall>r < nextObject st. objects st' r = objects st r"
    by simp
  from 1 2 3 4 show ?thesis
    by blast
qed

lemma filterOverlappingElements_st_spec:
  assumes "filterOverlappingElements_st thr arr st = (res, st')"
  shows "res = nextArray st" and "nextArray st' = Suc (nextArray st)"
    and "nextObject st' = nextObject st" and "objects st' = objects st"
    and "\<forall>a. a \<noteq> arr \<and> a < nextArray st \<longrightarrow> arrays st' a = arrays st a"
  using assms
  by (auto simp: filterOverlappingElements_st_def newArray_def sortArray_def Let_def split: if_splits)


lemma combineAndFilterElements_st_spec:
  assumes "combineAndFilterElements_st thr b c st = (res, st')"
  shows "indicesOf st' res = map int [0 ..< length (arrays st' res)] \<and>
         (\<forall>a < nextArray st. arrays st' a = arrays st a) \<and>
         (\<forall>r < nextObject st. objects st' r = objects st r)"
proof -
  let ?n = "nextArray st"
  let ?st1 = "st\<lparr>arrays := (arrays st)(?n := arrays st b @ arrays st c), nextArray := Suc ?n\<rparr>"
  obtain filtered st2 where f: "filterOverlappingElements_st thr ?n ?st1 = (filtered, st2)"
    by (cases "filterOverlappingElements_st thr ?n ?st1")
  from assms f have s: "sortElementsByPosition_st filtered st2 = (res, st')"
    by (simp add: combineAndFilterElements_st_def newArray_def)
  from filterOverlappingElements_st_spec [OF f] have fs:
    "filtered = Suc ?n" "nextArray st2 = Suc (Suc ?n)" "nextObject st2 = nextObject st"
    "objects st2 = objects st" "\<forall>a. a \<noteq> ?n \<and> a < Suc ?n \<longrightarrow> arrays st2 a = arrays ?st1 a"
    by simp_all
  from sortElementsByPosition_st_spec [OF s] have ss:
    "indicesOf st' res = map int [0 ..< length (arrays st' res)]"
    "\<forall>a. a \<noteq> filtered \<and> a < nextArray st2 \<longrightarrow> arrays st' a = arrays st2 a"
    "\<forall>r < nextObject st2. objects st' r = objects st2 r"
    by blast+
  have "\<forall>a < ?n. arrays st' a = arrays st a"
  proof (intro allI impI)
    fix a assume a: "a < ?n"
    with ss(2) fs(1,2) have "arrays st' a = arrays st2 a" by simp
    also from a fs(5) have "\<dots> = arrays ?st1 a" by simp
    also from a have "\<dots> = arrays st a" by simp
    finally show "arrays st' a = arrays st a" .
  qed
  with ss(1) ss(3) fs(3,4) show ?thesis
    by simp
qed

lemma sameExceptIndex_refl: "sameExceptIndex e e"
  by (simp add: sameExceptIndex_def)

lemma sameExceptIndex_update: "sameExceptIndex e (e\<lparr>InteractiveElement_v.index := i\<rparr>)"
  by (simp add: sameExceptIndex_def)

lemma sameExceptIndex_trans:
  "sameExceptIndex e e' \<Longrightarrow> sameExceptIndex e' e'' \<Longrightarrow> sameExceptIndex e e''"
proof -
  assume 1: "sameExceptIndex e e'" and 2: "sameExceptIndex e' e''"
  from 1 have "e' = e\<lparr>InteractiveElement_v.index := InteractiveElement_v.index e'\<rparr>"
    by (simp add: sameExceptIndex_def)
  moreover from 2 have "e'' = e'\<lparr>InteractiveElement_v.index := InteractiveElement_v.index e''\<rparr>"
    by (simp add: sameExceptIndex_def)
  ultimately have "e'' = e\<lparr>InteractiveElement_v.index := InteractiveElement_v.index e'\<rparr>
      \<lparr>InteractiveElement_v.index := InteractiveElement_v.index e''\<rparr>"
    by simp
  then show ?thesis
    by (simp add: sameExceptIndex_def)
qed

lemma assignIndices_arrays:
  "arrays (assignIndices refs k st) = arrays st \<and>
   nextArray (assignIndices refs k st) = nextArray st \<and>
   nextObject (assignIndices refs k st) = nextObject st"
  by (induction refs arbitrary: k st) simp_all

lemma assignIndices_other:
  "r \<notin> set refs \<Longrightarrow> objects (assignIndices refs k st) r = objects st r"
  by (induction refs arbitrary: k st) simp_all

lemma assignIndices_same:
  "sameExceptIndex (objects st r) (objects (assignIndices refs k st) r)"
proof (induction refs arbitrary: k st)
  case Nil
  show ?case by (simp add: sameExceptIndex_refl)
next
  case (Cons r' refs)
  let ?st1 = "st\<lparr>objects := (objects st)(r' := (objects st r')\<lparr>InteractiveElement_v.index := int k\<rparr>)\<rparr>"
  have "sameExceptIndex (objects st r) (objects ?st1 r)"
    by (simp add: sameExceptIndex_refl sameExceptIndex_update)
  from sameExceptIndex_trans [OF this Cons [of ?st1 "Suc k"]] show ?case
    by simp
qed

lemma distinct_insertSorted: "distinct (insertSorted cmp e es) \<longleftrightarrow> e \<notin> set es \<and> distinct es"
  by (induction es) (auto simp: set_insertSorted)

lemma set_sortWith: "set (sortWith cmp es) = set es"
  unfolding sortWith_def by (induction es) (simp_all add: set_insertSorted)

lemma distinct_sortWith: "distinct (sortWith cmp es) \<longleftrightarrow> distinct es"
  unfolding sortWith_def
  by (induction es) (simp_all add: distinct_insertSorted set_sortWith [unfolded sortWith_def])

lemma set_scanFiltered: "set (snd (scanFiltered rectOf weightOf zOf thr cur fs)) \<subseteq> set fs"
  by (induction fs) (auto simp: Let_def split: prod.splits)

lemma distinct_scanFiltered:
  "distinct fs \<Longrightarrow> distinct (snd (scanFiltered rectOf weightOf zOf thr cur fs))"
proof (induction fs)
  case Nil
  then show ?case by simp
next
  case (Cons f fs)
  then have "distinct (snd (scanFiltered rectOf weightOf zOf thr cur fs))" and "f \<notin> set fs"
    by simp_all
  moreover from \<open>f \<notin> set fs\<close> set_scanFiltered [of rectOf weightOf zOf thr cur fs]
  have "f \<notin> set (snd (scanFiltered rectOf weightOf zOf thr cur fs))"
    by blast
  ultimately show ?case
    using Cons.prems by (auto simp: Let_def split: prod.splits)
qed

lemma distinct_addEach:
  "distinct fs \<Longrightarrow> distinct es \<Longrightarrow> set fs \<inter> set es = {} \<Longrightarrow>
   distinct (addEach rectOf weightOf zOf thr fs es)"
proof (induction es arbitrary: fs)
  case Nil
  then show ?case by simp
next
  case (Cons cur rest)
  obtain b fs' where sc: "scanFiltered rectOf weightOf zOf thr cur fs = (b, fs')"
    by (cases "scanFiltered rectOf weightOf zOf thr cur fs")
  from set_scanFiltered [of rectOf weightOf zOf thr cur fs] sc have sub: "set fs' \<subseteq> set fs"
    by simp
  from distinct_scanFiltered [OF Cons.prems(1), of rectOf weightOf zOf thr cur] sc
  have d: "distinct fs'"
    by simp
  from Cons.prems have rest: "distinct rest" "cur \<notin> set rest" "cur \<notin> set fs" "set fs \<inter> set rest = {}"
    by auto
  show ?case
  proof (cases b)
    case True
    from d sub rest have "distinct (fs' @ [cur])" "set (fs' @ [cur]) \<inter> set rest = {}"
      by auto
    from Cons.IH [OF this(1) rest(1) this(2)] sc True show ?thesis by simp
  next
    case False
    from sub rest have "set fs' \<inter> set rest = {}"
      by auto
    from Cons.IH [OF d rest(1) this] sc False show ?thesis by simp
  qed
qed

lemma distinct_filterWith:
  "distinct es \<Longrightarrow> distinct (filterWith rectOf weightOf zOf thr es)"
  by (simp add: filterWith_def distinct_addEach distinct_sortWith)

lemma concat_groupRows: "concat (groupRows yOf cur es) = cur @ es"
  by (induction es arbitrary: cur) auto

lemma mset_insertSorted: "mset (insertSorted cmp e es) = add_mset e (mset es)"
  by (induction es) auto

lemma mset_sortWith: "mset (sortWith cmp es) = mset es"
  unfolding sortWith_def by (induction es) (simp_all add: mset_insertSorted)

lemma mset_concat_map_sortWith:
  "mset (concat (map (sortWith cmp) rows)) = mset (concat rows)"
  by (induction rows) (simp_all add: mset_sortWith)

lemma mset_orderWith: "mset (orderWith xOf yOf es) = mset es"
  by (simp add: orderWith_def Let_def mset_concat_map_sortWith concat_groupRows mset_sortWith)

lemma distinct_orderWith: "distinct es \<Longrightarrow> distinct (orderWith xOf yOf es)"
  using mset_eq_imp_distinct_iff [OF mset_orderWith [of xOf yOf es]] by blast


lemma assignIndices_index:
  "distinct refs \<Longrightarrow> i < length refs \<Longrightarrow>
   InteractiveElement_v.index (objects (assignIndices refs k st) (refs ! i)) = int (k + i)"
proof (induction refs arbitrary: k st i)
  case Nil
  then show ?case by simp
next
  case (Cons r refs)
  let ?st1 = "st\<lparr>objects := (objects st)(r := (objects st r)\<lparr>InteractiveElement_v.index := int k\<rparr>)\<rparr>"
  show ?case
  proof (cases i)
    case 0
    from Cons.prems(1) have "r \<notin> set refs" by simp
    then have "objects (assignIndices refs (Suc k) ?st1) r = objects ?st1 r"
      by (rule assignIndices_other)
    with 0 show ?thesis by simp
  next
    case (Suc j)
    with Cons.prems have "distinct refs" "j < length refs" by simp_all
    from Cons.IH [OF this, of "Suc k" ?st1] Suc show ?thesis by simp
  qed
qed

lemma sortElementsByPosition_vst_spec:
  assumes "sortElementsByPosition_vst arr st = (res, st')" and "distinct (arrays st arr)"
  shows "indicesOf_v st' res = map int [0 ..< length (arrays st' res)]"
proof (cases "arrays st arr = []")
  case True
  with assms show ?thesis
    by (auto simp: sortElementsByPosition_vst_def newArray_def indicesOf_v_def)
next
  case False
  define refs where "refs = orderWith (\<lambda>a. RectXY.x (InteractiveElement_v.rect (objects st a)))
                 (\<lambda>a. RectXY.y (InteractiveElement_v.rect (objects st a))) (arrays st arr)"
  define st1 where "st1 = assignIndices refs 0 st"
  from assms(1) False have res: "res = nextArray st1"
    and st': "st' = st1\<lparr>arrays := (arrays st1)(nextArray st1 := refs), nextArray := Suc (nextArray st1)\<rparr>"
    by (auto simp: sortElementsByPosition_vst_def newArray_def Let_def refs_def st1_def)
  from assms(2) have d: "distinct refs"
    unfolding refs_def by (rule distinct_orderWith)
  have "indicesOf_v st' res = map (\<lambda>r. InteractiveElement_v.index (objects st1 r)) refs"
    using res st' by (simp add: indicesOf_v_def)
  also have "\<dots> = map int [0 ..< length refs]"
  proof (rule nth_equalityI)
    show "length (map (\<lambda>r. InteractiveElement_v.index (objects st1 r)) refs) = length (map int [0 ..< length refs])"
      by simp
  next
    fix i assume "i < length (map (\<lambda>r. InteractiveElement_v.index (objects st1 r)) refs)"
    then have i: "i < length refs" by simp
    from assignIndices_index [OF d i, of 0 st] i
    show "map (\<lambda>r. InteractiveElement_v.index (objects st1 r)) refs ! i = map int [0 ..< length refs] ! i"
      by (simp add: st1_def)
  qed
  finally show ?thesis
    using res st' by simp
qed

lemma sortElementsByPosition_vst_frame:
  assumes "sortElementsByPosition_vst arr st = (res, st')"
  shows "(\<forall>a < nextArray st. arrays st' a = arrays st a) \<and>
         (\<forall>r. sameExceptIndex (objects st r) (objects st' r))"
proof (cases "arrays st arr = []")
  case True
  with assms show ?thesis
    by (auto simp: sortElementsByPosition_vst_def newArray_def sameExceptIndex_refl)
next
  case False
  define refs where "refs = orderWith (\<lambda>a. RectXY.x (InteractiveElement_v.rect (objects st a)))
                 (\<lambda>a. RectXY.y (InteractiveElement_v.rect (objects st a))) (arrays st arr)"
  define st1 where "st1 = assignIndices refs 0 st"
  from assms(1) False have
    st': "st' = st1\<lparr>arrays := (arrays st1)(nextArray st1 := refs), nextArray := Suc (nextArray st1)\<rparr>"
    by (auto simp: sortElementsByPosition_vst_def newArray_def Let_def refs_def st1_def)
  from assignIndices_arrays [of refs 0 st] have fr:
    "arrays st1 = arrays st" "nextArray st1 = nextArray st"
    by (simp_all add: st1_def)
  from st' fr have "\<forall>a < nextArray st. arrays st' a = arrays st a"
    by simp
  moreover from st' have "objects st' = objects st1"
    by simp
  ultimately show ?thesis
    using assignIndices_same [of st _ refs 0] by (simp add: st1_def)
qed

lemma combineAndFilterElements_vst_spec:
  assumes "combineAndFilterElements_vst thr b c st = (res, st')"
  shows "(distinct (arrays st b @ arrays st c) \<longrightarrow>
            indicesOf_v st' res = map int [0 ..< length (arrays st' res)]) \<and>
         (\<forall>a < nextArray st. arrays st' a = arrays st a) \<and>
         (\<forall>r. sameExceptIndex (objects st r) (objects st' r))"
proof -
  define n where "n = nextArray st"
  define st1 where "st1 = st\<lparr>arrays := (arrays st)(n := arrays st b @ arrays st c), nextArray := Suc n\<rparr>"
  define f where "f = filterWith (\<lambda>a. InteractiveElement_v.rect (objects st1 a))
              (\<lambda>a. InteractiveElement_v.weight (objects st1 a)) (\<lambda>a. zIndex (objects st1 a))
              thr (arrays st1 n)"
  define st2 where "st2 = st1\<lparr>arrays := (arrays st1)(Suc n := f), nextArray := Suc (Suc n)\<rparr>"
  from assms have s: "sortElementsByPosition_vst (Suc n) st2 = (res, st')"
    by (simp add: combineAndFilterElements_vst_def filterOverlappingElements_vst_def newArray_def
          n_def st1_def f_def st2_def)
  have arr: "arrays st2 (Suc n) = f" "nextArray st2 = Suc (Suc n)" "objects st2 = objects st"
    by (simp_all add: st2_def st1_def)
  have arr1: "arrays st1 n = arrays st b @ arrays st c"
    by (simp add: st1_def)
  have 1: "distinct (arrays st b @ arrays st c) \<longrightarrow>
            indicesOf_v st' res = map int [0 ..< length (arrays st' res)]"
  proof
    assume "distinct (arrays st b @ arrays st c)"
    with arr1 have "distinct (arrays st1 n)"
      by simp
    then have "distinct f"
      unfolding f_def by (rule distinct_filterWith)
    with arr have "distinct (arrays st2 (Suc n))"
      by simp
    from sortElementsByPosition_vst_spec [OF s this]
    show "indicesOf_v st' res = map int [0 ..< length (arrays st' res)]" .
  qed
  from sortElementsByPosition_vst_frame [OF s] arr
  have fr: "\<forall>a < Suc (Suc n). arrays st' a = arrays st2 a"
    "\<forall>r. sameExceptIndex (objects st r) (objects st' r)"
    by simp_all
  have 2: "\<forall>a < nextArray st. arrays st' a = arrays st a"
  proof (intro allI impI)
    fix a assume a: "a < nextArray st"
    with fr(1) have "arrays st' a = arrays st2 a" by (simp add: n_def)
    also from a have "\<dots> = arrays st a" by (simp add: st2_def st1_def n_def)
    finally show "arrays st' a = arrays st a" .
  qed
  from 1 2 fr(2) show ?thesis
    by blast
qed

text \<open>
  C7: the array returned by the fusion entry point holds elements whose \<^verbatim>\<open>index\<close> is
  their position in that array, so the indices are \<open>0, \<dots>, n - 1\<close> in this order,
  whatever the order of the inputs. The first implementation returns new objects. The
  second writes the index into the element objects it was given, so for it the input
  arrays are taken to hold no object twice (a DOM-derived and a vision-derived detection
  are never the same object).
\<close>

theorem combineAndFilterElements_indices:
  assumes "separate sv bv cv"
  shows "indicesOf (snd (combineAndFilterElements_st thr b c st))
             (fst (combineAndFilterElements_st thr b c st))
           = map int [0 ..< length (arrays (snd (combineAndFilterElements_st thr b c st))
                                     (fst (combineAndFilterElements_st thr b c st)))] \<and>
         indicesOf_v (snd (combineAndFilterElements_vst thr bv cv sv))
             (fst (combineAndFilterElements_vst thr bv cv sv))
           = map int [0 ..< length (arrays (snd (combineAndFilterElements_vst thr bv cv sv))
                                     (fst (combineAndFilterElements_vst thr bv cv sv)))]"
proof
  obtain res st' where r: "combineAndFilterElements_st thr b c st = (res, st')"
    by (cases "combineAndFilterElements_st thr b c st")
  from combineAndFilterElements_st_spec [OF r] r
  show "indicesOf (snd (combineAndFilterElements_st thr b c st))
             (fst (combineAndFilterElements_st thr b c st))
           = map int [0 ..< length (arrays (snd (combineAndFilterElements_st thr b c st))
                                     (fst (combineAndFilterElements_st thr b c st)))]"
    by simp
next
  obtain res st' where r: "combineAndFilterElements_vst thr bv cv sv = (res, st')"
    by (cases "combineAndFilterElements_vst thr bv cv sv")
  from combineAndFilterElements_vst_spec [OF r] r assms
  show "indicesOf_v (snd (combineAndFilterElements_vst thr bv cv sv))
             (fst (combineAndFilterElements_vst thr bv cv sv))
           = map int [0 ..< length (arrays (snd (combineAndFilterElements_vst thr bv cv sv))
                                     (fst (combineAndFilterElements_vst thr bv cv sv)))]"
    by (simp add: separate_def)
qed

lemma combine_store2:
  "fst (combineAndFilterElements_st 0.7 0 1 store2) = 4 \<and>
   arrays (snd (combineAndFilterElements_st 0.7 0 1 store2)) 4 = [2, 3]"
  by (simp add: combineAndFilterElements_st_def filterOverlappingElements_st_def
        sortElementsByPosition_st_def newArray_def sortArray_def sortWith_def finalFiltered_def
        byAreaThenWeight_def byPosition_def calculateIou_def isFullyContained_def store2_def
        element_def enumerate_eq_zip Let_def)

lemma combine_store2_v:
  "fst (combineAndFilterElements_vst 0.7 0 1 store2_v) = 4 \<and>
   arrays (snd (combineAndFilterElements_vst 0.7 0 1 store2_v)) 4 = [1, 0] \<and>
   InteractiveElement_v.index (objects (snd (combineAndFilterElements_vst 0.7 0 1 store2_v)) 0) = 1"
  by (simp add: combineAndFilterElements_vst_def filterOverlappingElements_vst_def
        sortElementsByPosition_vst_def newArray_def filterWith_def orderWith_def sortWith_def
        byAreaThenWeight_v_def calculateIOU_def isFullyContained_v_def edgesOf_def store2_v_def
        element_v_def Let_def)

theorem combineAndFilterElements_indices_witness:
  "separate store2_v 0 1 \<and>
   indicesOf (snd (combineAndFilterElements_st 0.7 0 1 store2)) 4 = [0, 1] \<and>
   indicesOf_v (snd (combineAndFilterElements_vst 0.7 0 1 store2_v)) 4 = [0, 1]"
proof -
  have s: "separate store2_v 0 1"
    by (simp add: separate_def store2_v_def)
  have u: "[0 ..< 2] = [0, Suc 0]"
    by (simp add: upt_rec)
  from combineAndFilterElements_indices [OF s, of "0.7" 0 1 store2] s
    combine_store2 combine_store2_v u
  show ?thesis
    by simp
qed

text \<open>
  C8, as stated, fails for the second implementation: its ordering pass writes the new
  index into the element objects of the input arrays. The element of the first input
  array, whose index was 7, has index 1 after the call.
\<close>

theorem combineAndFilterElements_vst_mutates_counterexample:
  "arrays store2_v 0 = [0] \<and>
   InteractiveElement_v.index (objects store2_v 0) = 7 \<and>
   InteractiveElement_v.index (objects (snd (combineAndFilterElements_vst 0.7 0 1 store2_v)) 0) = 1"
  using combine_store2_v by (simp add: store2_v_def)

text \<open>
  C8, amended. In a well-formed store, after the fusion entry point returns, both input
  arrays hold the same references in the same order. In the first implementation every
  element they refer to is unchanged in all its fields. In the second every such
  element is unchanged in all its fields except \<^verbatim>\<open>index\<close>.
\<close>

theorem combineAndFilterElements_inputs:
  assumes "wellFormed st b c" and "wellFormed sv bv cv"
  shows "arrays (snd (combineAndFilterElements_st thr b c st)) b = arrays st b \<and>
         arrays (snd (combineAndFilterElements_st thr b c st)) c = arrays st c \<and>
         (\<forall>r \<in> set (arrays st b @ arrays st c).
            objects (snd (combineAndFilterElements_st thr b c st)) r = objects st r) \<and>
         arrays (snd (combineAndFilterElements_vst thr bv cv sv)) bv = arrays sv bv \<and>
         arrays (snd (combineAndFilterElements_vst thr bv cv sv)) cv = arrays sv cv \<and>
         (\<forall>r \<in> set (arrays sv bv @ arrays sv cv).
            sameExceptIndex (objects sv r)
              (objects (snd (combineAndFilterElements_vst thr bv cv sv)) r))"
proof -
  obtain res st' where r: "combineAndFilterElements_st thr b c st = (res, st')"
    by (cases "combineAndFilterElements_st thr b c st")
  obtain resv sv' where rv: "combineAndFilterElements_vst thr bv cv sv = (resv, sv')"
    by (cases "combineAndFilterElements_vst thr bv cv sv")
  from assms(1) have wf: "b < nextArray st" "c < nextArray st"
    "\<forall>r \<in> set (arrays st b @ arrays st c). r < nextObject st"
    by (simp_all add: wellFormed_def list_all_iff)
  from assms(2) have wfv: "bv < nextArray sv" "cv < nextArray sv"
    by (simp_all add: wellFormed_def)
  from combineAndFilterElements_st_spec [OF r] have sp:
    "\<forall>a < nextArray st. arrays st' a = arrays st a"
    "\<forall>r < nextObject st. objects st' r = objects st r"
    by blast+
  from combineAndFilterElements_vst_spec [OF rv] have spv:
    "\<forall>a < nextArray sv. arrays sv' a = arrays sv a"
    "\<forall>r. sameExceptIndex (objects sv r) (objects sv' r)"
    by blast+
  from sp wf have "arrays st' b = arrays st b" "arrays st' c = arrays st c"
    "\<forall>r \<in> set (arrays st b @ arrays st c). objects st' r = objects st r"
    by blast+
  moreover from spv wfv have "arrays sv' bv = arrays sv bv" "arrays sv' cv = arrays sv cv"
    "\<forall>r \<in> set (arrays sv bv @ arrays sv cv). sameExceptIndex (objects sv r) (objects sv' r)"
    by blast+
  ultimately show ?thesis
    using r rv by simp
qed

theorem combineAndFilterElements_inputs_witness:
  "wellFormed store2 0 1 \<and> wellFormed store2_v 0 1 \<and>
   arrays (snd (combineAndFilterElements_st 0.7 0 1 store2)) 0 = [0] \<and>
   arrays (snd (combineAndFilterElements_st 0.7 0 1 store2)) 1 = [1] \<and>
   objects (snd (combineAndFilterElements_st 0.7 0 1 store2)) 0 = element 7 100 0 10 10 \<and>
   arrays (snd (combineAndFilterElements_vst 0.7 0 1 store2_v)) 0 = [0] \<and>
   sameExceptIndex (objects store2_v 1)
     (objects (snd (combineAndFilterElements_vst 0.7 0 1 store2_v)) 1)"
proof -
  have w: "wellFormed store2 0 1" "wellFormed store2_v 0 1"
    by (simp_all add: wellFormed_def store2_def store2_v_def)
  have a: "arrays store2 0 = [0]" "arrays store2 1 = [1]" "objects store2 0 = element 7 100 0 10 10"
    "arrays store2_v 0 = [0]" "arrays store2_v 1 = [1]"
    by (simp_all add: store2_def store2_v_def)
  from combineAndFilterElements_inputs [OF w, of "0.7"] w a show ?thesis
    by simp
qed

subsection \<open>The image utilities never throw\<close>

text \<open>
  C9: \<^const>\<open>putHighlightElementsOnScreenshot\<close> always returns a string and never throws;
  when the image cannot be read or the compositing fails it returns the screenshot it
  was given. \<^const>\<open>scaleB64Image\<close> always returns a string and never throws; when the
  image cannot be read, when its width or height is unknown, or when the resizing
  fails, it returns the image it was given. The placeholders of the second
  implementation return their input. (That a string the library produces is base64 is
  a property of the library.)
\<close>

theorem image_utilities_never_throw:
  "(\<exists>r. putHighlightElementsOnScreenshot sharp elements shot = Inr r \<and>
        ((\<exists>e. metadata sharp shot = Inl e) \<longrightarrow> r = shot) \<and>
        (\<forall>w h e. metadata sharp shot = Inr (w, h) \<and>
            composite sharp shot
              (fst (highlightEach (case w of None \<Rightarrow> 0 | Some n \<Rightarrow> int n)
                      (case h of None \<Rightarrow> 0 | Some n \<Rightarrow> int n) elements [] [])) = Inl e
          \<longrightarrow> r = shot)) \<and>
   (\<exists>r. scaleB64Image sharp img scaleFactor = Inr r \<and>
        ((\<exists>e. metadata sharp img = Inl e) \<longrightarrow> r = img) \<and>
        (\<forall>wh. metadata sharp img = Inr wh \<and> \<not> dimensionsKnown wh \<longrightarrow> r = img) \<and>
        (\<forall>wh e. metadata sharp img = Inr wh \<and> dimensionsKnown wh \<and>
            resize sharp img (mathRound (real (the (fst wh)) * scaleFactor))
              (mathRound (real (the (snd wh)) * scaleFactor)) = Inl e
          \<longrightarrow> r = img)) \<and>
   putHighlightElementsOnScreenshot_v elementsv shot = shot \<and>
   scaleB64Image_v img scaleFactor = img"
proof (intro conjI)
  show "\<exists>r. putHighlightElementsOnScreenshot sharp elements shot = Inr r \<and>
        ((\<exists>e. metadata sharp shot = Inl e) \<longrightarrow> r = shot) \<and>
        (\<forall>w h e. metadata sharp shot = Inr (w, h) \<and>
            composite sharp shot
              (fst (highlightEach (case w of None \<Rightarrow> 0 | Some n \<Rightarrow> int n)
                      (case h of None \<Rightarrow> 0 | Some n \<Rightarrow> int n) elements [] [])) = Inl e
          \<longrightarrow> r = shot)"
  proof (cases "metadata sharp shot")
    case (Inl e)
    then show ?thesis
      by (simp add: putHighlightElementsOnScreenshot_def tryCatch_def)
  next
    case (Inr wh)
    obtain w h where wh: "wh = (w, h)"
      by (cases wh)
    show ?thesis
    proof (cases "composite sharp shot
              (fst (highlightEach (case w of None \<Rightarrow> 0 | Some n \<Rightarrow> int n)
                      (case h of None \<Rightarrow> 0 | Some n \<Rightarrow> int n) elements [] []))")
      case (Inl e)
      with Inr wh show ?thesis
        by (simp add: putHighlightElementsOnScreenshot_def tryCatch_def Let_def)
    next
      case (Inr out)
      with \<open>metadata sharp shot = Inr wh\<close> wh show ?thesis
        by (simp add: putHighlightElementsOnScreenshot_def tryCatch_def Let_def)
    qed
  qed
next
  show "\<exists>r. scaleB64Image sharp img scaleFactor = Inr r \<and>
        ((\<exists>e. metadata sharp img = Inl e) \<longrightarrow> r = img) \<and>
        (\<forall>wh. metadata sharp img = Inr wh \<and> \<not> dimensionsKnown wh \<longrightarrow> r = img) \<and>
        (\<forall>wh e. metadata sharp img = Inr wh \<and> dimensionsKnown wh \<and>
            resize sharp img (mathRound (real (the (fst wh)) * scaleFactor))
              (mathRound (real (the (snd wh)) * scaleFactor)) = Inl e
          \<longrightarrow> r = img)"
  proof (cases "metadata sharp img")
    case (Inl e)
    then show ?thesis
      by (simp add: scaleB64Image_def tryCatch_def)
  next
    case (Inr wh)
    show ?thesis
    proof (cases "dimensionsKnown wh")
      case False
      with Inr show ?thesis
        by (simp add: scaleB64Image_def tryCatch_def)
    next
      case True
      show ?thesis
      proof (cases "resize sharp img (mathRound (real (the (fst wh)) * scaleFactor))
              (mathRound (real (the (snd wh)) * scaleFactor))")
        case (Inl e)
        with Inr True show ?thesis
          by (simp add: scaleB64Image_def tryCatch_def Let_def)
      next
        case (Inr out)
        with \<open>metadata sharp img = Inr wh\<close> True show ?thesis
          by (simp add: scaleB64Image_def tryCatch_def Let_def)
      qed
    qed
  qed
next
  show "putHighlightElementsOnScreenshot_v elementsv shot = shot"
    by (simp add: putHighlightElementsOnScreenshot_v_def)
next
  show "scaleB64Image_v img scaleFactor = img"
    by (simp add: scaleB64Image_v_def)
qed

theorem image_utilities_never_throw_witness:
  "putHighlightElementsOnScreenshot brokenSharp [(0, element 0 10 10 50 20)] ''AAAA'' = Inr ''AAAA'' \<and>
   scaleB64Image brokenSharp ''AAAA'' 0.75 = Inr ''AAAA''"
proof -
  have m: "\<exists>e. metadata brokenSharp ''AAAA'' = Inl e"
    by (simp add: brokenSharp_def)
  from image_utilities_never_throw
         [of brokenSharp "[(0, element 0 10 10 50 20)]" "''AAAA''" "''AAAA''" "0.75"] m
  show ?thesis
    by auto
qed

subsection \<open>The filters on the store and on element values\<close>

lemma map_insertSorted:
  "map f (insertSorted (\<lambda>a b. cmp (f a) (f b)) e es) = insertSorted cmp (f e) (map f es)"
  by (induction es) simp_all

lemma map_sortWith:
  "map f (sortWith (\<lambda>a b. cmp (f a) (f b)) es) = sortWith cmp (map f es)"
  unfolding sortWith_def by (induction es) (simp_all add: map_insertSorted)

lemma map_scanKept:
  "scanKept rectOf thr (f cur) (map f kept) =
     (fst (scanKept (\<lambda>a. rectOf (f a)) thr cur kept),
      map f (snd (scanKept (\<lambda>a. rectOf (f a)) thr cur kept)))"
  by (induction kept) (auto simp: Let_def split: prod.splits)

lemma map_keepEach:
  "keepEach rectOf thr (map f kept) (map f es) =
     map f (keepEach (\<lambda>a. rectOf (f a)) thr kept es)"
proof (induction es arbitrary: kept)
  case Nil
  then show ?case by simp
next
  case (Cons cur rest)
  obtain ov kept' where sk: "scanKept (\<lambda>a. rectOf (f a)) thr cur kept = (ov, kept')"
    by (cases "scanKept (\<lambda>a. rectOf (f a)) thr cur kept")
  with map_scanKept [of rectOf thr f cur kept]
  have "scanKept rectOf thr (f cur) (map f kept) = (ov, map f kept')"
    by simp
  with sk Cons [of kept'] Cons [of "cur # kept'"] show ?case
    by simp
qed

lemma map_finalFiltered:
  "map f (finalFiltered (\<lambda>a. rectOf (f a)) thr es) = finalFiltered rectOf thr (map f es)"
  using map_keepEach [of rectOf thr f "[]" es] by (simp add: finalFiltered_def rev_map)

text \<open>
  The filter on the store returns a new array whose elements are, value for value, what
  \<^const>\<open>filterOverlappingElements\<close> returns on the elements of its argument.
\<close>

lemma filterOverlappingElements_st_values:
  assumes "filterOverlappingElements_st thr arr st = (res, st')"
  shows "map (objects st') (arrays st' res)
           = filterOverlappingElements thr (map (objects st) (arrays st arr))"
proof (cases "arrays st arr = []")
  case True
  with assms show ?thesis
    by (auto simp: filterOverlappingElements_st_def filterOverlappingElements_def newArray_def)
next
  case False
  define sorted' where "sorted' = sortWith (\<lambda>a b. byAreaThenWeight InteractiveElement.rect
      InteractiveElement.weight (objects st a) (objects st b)) (arrays st arr)"
  from assms False have "map (objects st') (arrays st' res)
      = map (objects st) (finalFiltered (\<lambda>a. InteractiveElement.rect (objects st a)) thr sorted')"
    by (auto simp: filterOverlappingElements_st_def newArray_def sortArray_def Let_def sorted'_def)
  also have "\<dots> = finalFiltered InteractiveElement.rect thr (map (objects st) sorted')"
    by (rule map_finalFiltered)
  also have "map (objects st) sorted'
      = sortWith (byAreaThenWeight InteractiveElement.rect InteractiveElement.weight)
          (map (objects st) (arrays st arr))"
    unfolding sorted'_def by (rule map_sortWith)
  finally show ?thesis
    using False by (simp add: filterOverlappingElements_def)
qed

lemma map_scanFiltered:
  "scanFiltered rectOf weightOf zOf thr (f cur) (map f fs) =
     (fst (scanFiltered (\<lambda>a. rectOf (f a)) (\<lambda>a. weightOf (f a)) (\<lambda>a. zOf (f a)) thr cur fs),
      map f (snd (scanFiltered (\<lambda>a. rectOf (f a)) (\<lambda>a. weightOf (f a)) (\<lambda>a. zOf (f a)) thr cur fs)))"
  by (induction fs) (auto simp: Let_def split: prod.splits)

lemma map_addEach:
  "addEach rectOf weightOf zOf thr (map f fs) (map f es) =
     map f (addEach (\<lambda>a. rectOf (f a)) (\<lambda>a. weightOf (f a)) (\<lambda>a. zOf (f a)) thr fs es)"
proof (induction es arbitrary: fs)
  case Nil
  then show ?case by simp
next
  case (Cons cur rest)
  obtain b fs' where sc:
    "scanFiltered (\<lambda>a. rectOf (f a)) (\<lambda>a. weightOf (f a)) (\<lambda>a. zOf (f a)) thr cur fs = (b, fs')"
    by (cases "scanFiltered (\<lambda>a. rectOf (f a)) (\<lambda>a. weightOf (f a)) (\<lambda>a. zOf (f a)) thr cur fs")
  with map_scanFiltered [of rectOf weightOf zOf thr f cur fs]
  have "scanFiltered rectOf weightOf zOf thr (f cur) (map f fs) = (b, map f fs')"
    by simp
  with sc Cons [of fs'] Cons [of "fs' @ [cur]"] show ?case
    by simp
qed

lemma map_filterWith:
  "map f (filterWith (\<lambda>a. rectOf (f a)) (\<lambda>a. weightOf (f a)) (\<lambda>a. zOf (f a)) thr es)
     = filterWith rectOf weightOf zOf thr (map f es)"
proof -
  have "byAreaThenWeight_v (\<lambda>a. rectOf (f a)) (\<lambda>a. weightOf (f a))
      = (\<lambda>a b. byAreaThenWeight_v rectOf weightOf (f a) (f b))"
    by (intro ext) (simp add: byAreaThenWeight_v_def)
  then have "map f (sortWith (byAreaThenWeight_v (\<lambda>a. rectOf (f a)) (\<lambda>a. weightOf (f a))) es)
      = sortWith (byAreaThenWeight_v rectOf weightOf) (map f es)"
    by (simp only: map_sortWith)
  with map_addEach [of rectOf weightOf zOf thr f "[]"
         "sortWith (byAreaThenWeight_v (\<lambda>a. rectOf (f a)) (\<lambda>a. weightOf (f a))) es"]
  show ?thesis
    by (simp add: filterWith_def)
qed

lemma filterOverlappingElements_vst_values:
  assumes "filterOverlappingElements_vst thr arr st = (res, st')"
  shows "map (objects st') (arrays st' res)
           = filterOverlappingElements_v thr (map (objects st) (arrays st arr))"
  using assms map_filterWith [of "objects st" InteractiveElement_v.rect InteractiveElement_v.weight
                                 zIndex thr "arrays st arr"]
  by (auto simp: filterOverlappingElements_vst_def filterOverlappingElements_v_def newArray_def)

end
